theory Spec2Isabelle
  imports Main "HOL-Library.Sublist"
begin

section \<open>Content cache (\<open>CorrectionCache\<close> of src/src/processor.py)\<close>

text \<open>
  The cache is an SQLite file with two tables, \<open>corrections\<close> and \<open>footnotes\<close>, each
  with the column \<open>hash\<close> as primary key. A table is modelled as a map from the key to
  the remaining columns of the row; \<open>INSERT OR REPLACE\<close> is the map update. The column
  \<open>created_at\<close> (the wall-clock time of the insert) is never read by the program and is
  left out. Python strings are modelled as \<open>string\<close>, one \<open>char\<close> per code point
  (code points below 256).

  \<open>hashlib.sha256\<close> is library code: the hex digest is a parameter \<open>sha\<close> of every
  operation, and \<open>cache_hash\<close> is the method \<open>_hash\<close>, which keeps its first 32
  characters.
\<close>

record correction_row =
  original :: string
  corrected :: string
  model :: string

record footnote_row =
  marked_text :: string
  fn_model :: string

record CorrectionCache =
  corrections :: "string \<rightharpoonup> correction_row"
  footnotes :: "string \<rightharpoonup> footnote_row"

definition init_db :: CorrectionCache where
  "init_db = \<lparr>corrections = Map.empty, footnotes = Map.empty\<rparr>"

definition cache_hash :: "(string \<Rightarrow> string) \<Rightarrow> string \<Rightarrow> string" where
  "cache_hash sha text = take 32 (sha text)"

definition get_correction :: "(string \<Rightarrow> string) \<Rightarrow> CorrectionCache \<Rightarrow> string \<Rightarrow> string option" where
  "get_correction sha c text =
     (case corrections c (cache_hash sha text) of
        None \<Rightarrow> None
      | Some row \<Rightarrow> Some (corrected row))"

definition set_correction ::
  "(string \<Rightarrow> string) \<Rightarrow> CorrectionCache \<Rightarrow> string \<Rightarrow> string \<Rightarrow> string \<Rightarrow> CorrectionCache" where
  "set_correction sha c orig corr mdl =
     c\<lparr>corrections := (corrections c)(cache_hash sha orig \<mapsto>
          \<lparr>original = orig, corrected = corr, model = mdl\<rparr>)\<rparr>"

definition get_footnotes :: "(string \<Rightarrow> string) \<Rightarrow> CorrectionCache \<Rightarrow> string \<Rightarrow> string option" where
  "get_footnotes sha c text =
     (case footnotes c (cache_hash sha text) of
        None \<Rightarrow> None
      | Some row \<Rightarrow> Some (marked_text row))"

definition set_footnotes ::
  "(string \<Rightarrow> string) \<Rightarrow> CorrectionCache \<Rightarrow> string \<Rightarrow> string \<Rightarrow> string \<Rightarrow> CorrectionCache" where
  "set_footnotes sha c orig marked mdl =
     c\<lparr>footnotes := (footnotes c)(cache_hash sha orig \<mapsto>
          \<lparr>marked_text = marked, fn_model = mdl\<rparr>)\<rparr>"

text \<open>
  The stage of a run: \<open>process_chunks_parallel\<close> takes it as the string \<open>mode\<close> and
  tests \<open>mode == "correction"\<close>; every other value runs the footnotes stage.
  \<open>cache_get\<close> and \<open>cache_put\<close> name the pair of methods that the stage's task uses.
\<close>

datatype stage = Correction | Footnotes

fun cache_get :: "(string \<Rightarrow> string) \<Rightarrow> stage \<Rightarrow> CorrectionCache \<Rightarrow> string \<Rightarrow> string option" where
  "cache_get sha Correction c text = get_correction sha c text"
| "cache_get sha Footnotes c text = get_footnotes sha c text"

fun cache_put ::
  "(string \<Rightarrow> string) \<Rightarrow> stage \<Rightarrow> CorrectionCache \<Rightarrow> string \<Rightarrow> string \<Rightarrow> string \<Rightarrow> CorrectionCache" where
  "cache_put sha Correction c orig res mdl = set_correction sha c orig res mdl"
| "cache_put sha Footnotes c orig res mdl = set_footnotes sha c orig res mdl"

text \<open>
  A sequence of writes, as the workers of the stages issue them one after the other:
  \<open>Put st orig res mdl\<close> is the call of the stage's set method.
\<close>

datatype cache_op = Put stage string string string

fun apply_put :: "(string \<Rightarrow> string) \<Rightarrow> cache_op \<Rightarrow> CorrectionCache \<Rightarrow> CorrectionCache" where
  "apply_put sha (Put st orig res mdl) c = cache_put sha st c orig res mdl"

definition apply_puts :: "(string \<Rightarrow> string) \<Rightarrow> cache_op list \<Rightarrow> CorrectionCache \<Rightarrow> CorrectionCache" where
  "apply_puts sha ps c = fold (apply_put sha) ps c"


section \<open>Transform client\<close>

subsection \<open>\<open>ModelClient.generate\<close> (src/src/processor.py)\<close>

text \<open>
  The three backends (\<open>_gen_ollama\<close>, \<open>_gen_gemini\<close>, \<open>_gen_openai\<close>) call an external
  service. One call is an oracle \<open>call attempt prompt\<close> that either raises (\<open>Inl\<close>, with
  the message of the exception) or returns a text (\<open>Inr\<close>). \<open>generate\<close> returns the
  \<open>Optional[str]\<close> of the source together with the trace of what it did: every call of
  the backend and every \<open>time.sleep\<close>, in order. When \<open>self.backend\<close> is none of the three
  names, no branch of the \<open>if\<close> chain is taken: the iteration neither calls nor returns.
\<close>

datatype backend_kind = Ollama | Gemini | OpenAI | OtherBackend

record ModelClient =
  backend :: backend_kind
  model_name :: string

datatype gen_event = BackendCall nat | Sleep nat

definition MAX_RETRIES :: nat where
  "MAX_RETRIES = 5"

definition RETRY_BASE_WAIT :: nat where
  "RETRY_BASE_WAIT = 5"

function generate_from ::
  "(nat \<Rightarrow> string \<Rightarrow> string + string) \<Rightarrow> ModelClient \<Rightarrow> string \<Rightarrow> nat \<Rightarrow> nat
   \<Rightarrow> string option \<times> gen_event list" where
  "generate_from call client prompt max_retries attempt =
     (if attempt < max_retries then
        (if backend client = OtherBackend then
           generate_from call client prompt max_retries (Suc attempt)
         else
           (case call attempt prompt of
              Inr text \<Rightarrow> (Some text, [BackendCall attempt])
            | Inl e \<Rightarrow>
                (let wait = RETRY_BASE_WAIT * 2 ^ attempt;
                     slept = (if Suc attempt < max_retries then [Sleep wait] else []);
                     rest = generate_from call client prompt max_retries (Suc attempt)
                 in (fst rest, BackendCall attempt # slept @ snd rest))))
      else (None, []))"
  by pat_completeness auto
termination
  by (relation "measure (\<lambda>(call, client, prompt, max_retries, attempt). max_retries - attempt)") auto

definition generate ::
  "(nat \<Rightarrow> string \<Rightarrow> string + string) \<Rightarrow> ModelClient \<Rightarrow> string \<Rightarrow> nat
   \<Rightarrow> string option \<times> gen_event list" where
  "generate call client prompt max_retries = generate_from call client prompt max_retries 0"

fun backend_calls :: "gen_event list \<Rightarrow> nat" where
  "backend_calls [] = 0"
| "backend_calls (BackendCall a # es) = Suc (backend_calls es)"
| "backend_calls (Sleep s # es) = backend_calls es"

text \<open>The waits of a trace, in order: the arguments of its \<open>time.sleep\<close> calls.\<close>

fun sleeps :: "gen_event list \<Rightarrow> nat list" where
  "sleeps [] = []"
| "sleeps (BackendCall a # es) = sleeps es"
| "sleeps (Sleep s # es) = s # sleeps es"

subsection \<open>\<open>_call_gemini_api\<close> (src/correcaoKDP.py)\<close>

text \<open>
  One call of \<open>model.generate_content\<close> and what the code reads from the response:
  \<^item> \<open>ApiRaised msg\<close>: the call (or reading the prompt feedback) raised; \<open>msg\<close> is
    \<open>str(e)\<close>;
  \<^item> \<open>PromptBlocked\<close>: the response carries a block reason;
  \<^item> \<open>NoCandidates\<close>: \<open>response.candidates\<close> is empty;
  \<^item> \<open>Candidate (Inl msg)\<close>: reading the first candidate raised (the inner \<open>except\<close>);
  \<^item> \<open>Candidate (Inr text)\<close>: the stripped text read from the first candidate, possibly
    empty.
  The wait before the next attempt is
  \<open>base_wait_time * 2 ** attempt + os.urandom(1)[0] / 255.0 * base_wait_time\<close>, a float:
  the trace records its three integer components (the base, the attempt and the random
  byte, given by the oracle \<open>jitter\<close>).
\<close>

datatype api_response =
  ApiRaised string
  | PromptBlocked
  | NoCandidates
  | Candidate "string + string"

datatype api_event = ApiCall nat | ApiSleep nat nat nat

definition quota_error :: "string \<Rightarrow> bool" where
  "quota_error msg \<longleftrightarrow> sublist ''RESOURCE_EXHAUSTED'' msg \<or> sublist ''429'' msg"

definition kdp_max_retries :: nat where
  "kdp_max_retries = 5"

function call_gemini_from ::
  "(nat \<Rightarrow> api_response) \<Rightarrow> (nat \<Rightarrow> nat) \<Rightarrow> nat \<Rightarrow> nat \<Rightarrow> nat
   \<Rightarrow> string option \<times> api_event list" where
  "call_gemini_from resp jitter max_retries base_wait_time attempt =
     (if attempt < max_retries then
        (case resp attempt of
           ApiRaised msg \<Rightarrow>
             (let base = (if quota_error msg then max 15 base_wait_time else base_wait_time)
              in if Suc attempt < max_retries then
                   (let rest = call_gemini_from resp jitter max_retries base (Suc attempt)
                    in (fst rest, ApiCall attempt # ApiSleep base attempt (jitter attempt) # snd rest))
                 else (None, [ApiCall attempt]))
         | PromptBlocked \<Rightarrow> (None, [ApiCall attempt])
         | Candidate (Inr (c # cs)) \<Rightarrow> (Some (c # cs), [ApiCall attempt])
         | _ \<Rightarrow>
             (if Suc attempt < max_retries then
                (let rest = call_gemini_from resp jitter max_retries base_wait_time (Suc attempt)
                 in (fst rest,
                     ApiCall attempt # ApiSleep base_wait_time attempt (jitter attempt) # snd rest))
              else (None, [ApiCall attempt])))
      else (None, []))"
  by pat_completeness auto
termination
  by (relation "measure (\<lambda>(resp, jitter, max_retries, base, attempt). max_retries - attempt)") auto

definition call_gemini_api ::
  "(nat \<Rightarrow> api_response) \<Rightarrow> (nat \<Rightarrow> nat) \<Rightarrow> string option \<times> api_event list" where
  "call_gemini_api resp jitter = call_gemini_from resp jitter kdp_max_retries 5 0"

fun api_calls :: "api_event list \<Rightarrow> nat" where
  "api_calls [] = 0"
| "api_calls (ApiCall a # es) = Suc (api_calls es)"
| "api_calls (ApiSleep b a j # es) = api_calls es"

text \<open>An attempt succeeds when a non-empty text is read from the first candidate.\<close>

fun usable :: "api_response \<Rightarrow> bool" where
  "usable (Candidate (Inr (c # cs))) = True"
| "usable r = False"

text \<open>Whether one of the attempts \<open>first, \<dots>, a\<close> raised a quota error.\<close>

fun is_quota_failure :: "api_response \<Rightarrow> bool" where
  "is_quota_failure (ApiRaised msg) = quota_error msg"
| "is_quota_failure r = False"

definition quota_seen :: "(nat \<Rightarrow> api_response) \<Rightarrow> nat \<Rightarrow> nat \<Rightarrow> bool" where
  "quota_seen resp first a = list_ex (\<lambda>b. is_quota_failure (resp b)) [first..<Suc a]"

text \<open>
  A service for concrete runs: the first call raises a quota error and every later call
  answers without candidates.
\<close>

definition example_resp :: "nat \<Rightarrow> api_response" where
  "example_resp a = (if a = 0 then ApiRaised ''429 quota exceeded'' else NoCandidates)"

section \<open>Stage orchestrator (src/src/processor.py)\<close>

text \<open>
  Everything outside the program that a stage run meets is collected in a record:
  \<^item> \<open>sha256\<close>: the hex digest of \<open>hashlib\<close>;
  \<^item> \<open>backend_call idx\<close>: the oracle of the backend for the task of chunk \<open>idx\<close>;
  \<^item> \<open>latency idx\<close>: when the executor thread of task \<open>idx\<close> finishes, relative to the
    other tasks of its batch (a smaller value completes first);
  \<^item> \<open>db_get_fails idx\<close>, \<open>db_set_fails idx\<close>: whether SQLite raises in the cache read
    or in the cache write of task \<open>idx\<close>;
  \<^item> \<open>correction_prompt\<close>, \<open>footnote_prompt\<close>: the two prompt templates
    (\<open>get_correction_prompt\<close>, \<open>get_footnote_prompt\<close>), fixed text around the chunk
    and the author's name that only the backend reads.
\<close>

record world =
  sha256 :: "string \<Rightarrow> string"
  backend_call :: "nat \<Rightarrow> nat \<Rightarrow> string \<Rightarrow> string + string"
  latency :: "nat \<Rightarrow> nat"
  db_get_fails :: "nat \<Rightarrow> bool"
  db_set_fails :: "nat \<Rightarrow> bool"
  correction_prompt :: "string \<Rightarrow> string \<Rightarrow> bool \<Rightarrow> string"
  footnote_prompt :: "string \<Rightarrow> string \<Rightarrow> string"

definition AI_FAILURE_MARKER :: string where
  "AI_FAILURE_MARKER = ''*** FALHA NA IA ***''"

definition para_sep :: string where
  "para_sep = [CHR 0x0A, CHR 0x0A]"

text \<open>Python's truth test of an \<open>Optional[str]\<close>: \<open>None\<close> and the empty string are false.\<close>

fun truthy :: "string option \<Rightarrow> bool" where
  "truthy None = False"
| "truthy (Some s) = (s \<noteq> [])"

text \<open>
  The outcome of a task as \<open>asyncio.gather(..., return_exceptions=True)\<close> reports it: the
  exception the coroutine raised, or the pair it returned. A task issues at most one
  cache write, after its backend call; the write is returned beside the outcome so
  that the batch can apply the writes of its tasks in the order in which they complete.
\<close>

datatype task_result = Raised | Returned nat string

definition process_correction ::
  "world \<Rightarrow> ModelClient \<Rightarrow> CorrectionCache \<Rightarrow> string \<Rightarrow> string \<Rightarrow> bool \<Rightarrow> nat
   \<Rightarrow> task_result \<times> cache_op option" where
  "process_correction w client c chunk author is_first idx =
     (if db_get_fails w idx then (Raised, None)
      else
        (let cached = get_correction (sha256 w) c chunk in
         if truthy cached then (Returned idx (the cached), None)
         else
           (let prompt = correction_prompt w chunk author is_first;
                result = fst (generate (backend_call w idx) client prompt MAX_RETRIES)
            in if truthy result then
                 (if db_set_fails w idx then (Raised, None)
                  else (Returned idx (the result),
                        Some (Put Correction chunk (the result) (model_name client))))
               else (Returned idx (AI_FAILURE_MARKER @ para_sep @ chunk), None))))"

definition process_footnotes ::
  "world \<Rightarrow> ModelClient \<Rightarrow> CorrectionCache \<Rightarrow> string \<Rightarrow> string \<Rightarrow> nat
   \<Rightarrow> task_result \<times> cache_op option" where
  "process_footnotes w client c chunk author idx =
     (if db_get_fails w idx then (Raised, None)
      else
        (let cached = get_footnotes (sha256 w) c chunk in
         if truthy cached then (Returned idx (the cached), None)
         else
           (let prompt = footnote_prompt w chunk author;
                result = fst (generate (backend_call w idx) client prompt MAX_RETRIES)
            in if truthy result then
                 (if db_set_fails w idx then (Raised, None)
                  else (Returned idx (the result),
                        Some (Put Footnotes chunk (the result) (model_name client))))
               else (Returned idx chunk, None))))"

text \<open>The task that \<open>process_chunks_parallel\<close> creates for the chunk at \<open>idx\<close>.\<close>

fun make_task ::
  "stage \<Rightarrow> world \<Rightarrow> ModelClient \<Rightarrow> CorrectionCache \<Rightarrow> string \<Rightarrow> string \<Rightarrow> nat
   \<Rightarrow> task_result \<times> cache_op option" where
  "make_task Correction w client c chunk author idx =
     process_correction w client c chunk author (idx = 0) idx"
| "make_task Footnotes w client c chunk author idx =
     process_footnotes w client c chunk author idx"

text \<open>
  One batch. Each coroutine runs up to its first \<open>await\<close> as soon as \<open>gather\<close> schedules
  it, so every task of the batch reads the cache as it is when the batch starts; the
  part after the \<open>await\<close> (the cache write) runs when the task's executor thread has
  finished, in the order of the latencies. \<open>gather\<close> returns the outcomes in the order
  of the tasks, whatever the order of completion.
\<close>

definition batch_tasks ::
  "stage \<Rightarrow> world \<Rightarrow> ModelClient \<Rightarrow> string \<Rightarrow> nat \<Rightarrow> string list \<Rightarrow> CorrectionCache
   \<Rightarrow> (nat \<times> task_result \<times> cache_op option) list" where
  "batch_tasks st w client author i batch c =
     map (\<lambda>j. (i + j, make_task st w client c (batch ! j) author (i + j))) [0..<length batch]"

definition completion_writes ::
  "world \<Rightarrow> (nat \<times> task_result \<times> cache_op option) list \<Rightarrow> cache_op list" where
  "completion_writes w tasks =
     List.map_filter (\<lambda>(idx, r, wr). wr) (sort_key (\<lambda>(idx, r, wr). latency w idx) tasks)"

definition gather ::
  "stage \<Rightarrow> world \<Rightarrow> ModelClient \<Rightarrow> string \<Rightarrow> nat \<Rightarrow> string list \<Rightarrow> CorrectionCache
   \<Rightarrow> task_result list \<times> CorrectionCache" where
  "gather st w client author i batch c =
     (let tasks = batch_tasks st w client author i batch c
      in (map (\<lambda>(idx, r, wr). r) tasks,
          apply_puts (sha256 w) (completion_writes w tasks) c))"

fun store_result :: "task_result \<Rightarrow> string option list \<Rightarrow> string option list" where
  "store_result Raised results = results"
| "store_result (Returned idx text) results = results[idx := Some text]"

definition run_batch ::
  "stage \<Rightarrow> world \<Rightarrow> ModelClient \<Rightarrow> string list \<Rightarrow> string \<Rightarrow> nat \<Rightarrow> nat
   \<Rightarrow> string option list \<times> CorrectionCache \<Rightarrow> string option list \<times> CorrectionCache" where
  "run_batch st w client chunks author batch_size i s =
     (let batch = take batch_size (drop i chunks);
          g = gather st w client author i batch (snd s)
      in (fold store_result (fst g) (fst s), snd g))"

function batches_loop ::
  "stage \<Rightarrow> world \<Rightarrow> ModelClient \<Rightarrow> string list \<Rightarrow> string \<Rightarrow> nat \<Rightarrow> nat
   \<Rightarrow> string option list \<times> CorrectionCache \<Rightarrow> string option list \<times> CorrectionCache" where
  "batches_loop st w client chunks author batch_size i s =
     (if 0 < batch_size \<and> i < length chunks then
        batches_loop st w client chunks author batch_size (i + batch_size)
          (run_batch st w client chunks author batch_size i s)
      else s)"
  by pat_completeness auto
termination
  by (relation "measure (\<lambda>(st, w, client, chunks, author, batch_size, i, s). length chunks - i)")
    auto

text \<open>The last loop of the function: a position still \<open>None\<close> gets the chunk itself.\<close>

definition fallback_none :: "string option list \<Rightarrow> string list \<Rightarrow> string list" where
  "fallback_none results chunks =
     map (\<lambda>i. case results ! i of None \<Rightarrow> chunks ! i | Some text \<Rightarrow> text) [0..<length results]"

datatype py_error = ValueError

text \<open>
  \<open>batch_size\<close> is the setting \<open>PARALLEL_CHUNKS\<close> (an \<open>int\<close> read from the environment,
  2 by default). \<open>range(0, n, 0)\<close> raises \<open>ValueError\<close>, and a negative step gives the
  empty range. The function returns the list of outputs and, as the effect of the run,
  the cache it leaves.
\<close>

definition process_chunks_parallel ::
  "world \<Rightarrow> ModelClient \<Rightarrow> string list \<Rightarrow> string \<Rightarrow> stage \<Rightarrow> int \<Rightarrow> CorrectionCache
   \<Rightarrow> py_error + (string list \<times> CorrectionCache)" where
  "process_chunks_parallel w client chunks author mode batch_size c =
     (let results = replicate (length chunks) None in
      if batch_size = 0 then Inl ValueError
      else
        (let s = batches_loop mode w client chunks author (nat batch_size) 0 (results, c)
         in Inr (fallback_none (fst s) chunks, snd s)))"

text \<open>
  The cache at the start of the \<open>k\<close>-th batch (counted from 0) of a run that starts with
  the cache \<open>c\<close>: the writes of the batches before it, applied in order.
\<close>

fun cache_at_batch ::
  "stage \<Rightarrow> world \<Rightarrow> ModelClient \<Rightarrow> string list \<Rightarrow> string \<Rightarrow> nat \<Rightarrow> CorrectionCache \<Rightarrow> nat
   \<Rightarrow> CorrectionCache" where
  "cache_at_batch st w client chunks author batch_size c 0 = c"
| "cache_at_batch st w client chunks author batch_size c (Suc k) =
     snd (gather st w client author (k * batch_size)
            (take batch_size (drop (k * batch_size) chunks))
            (cache_at_batch st w client chunks author batch_size c k))"

text \<open>
  The text that the run leaves at position \<open>idx\<close> for an outcome of the task of that
  position: the returned text, or the chunk itself when the task raised.
\<close>

fun outcome_text :: "task_result \<Rightarrow> string \<Rightarrow> string" where
  "outcome_text Raised chunk = chunk"
| "outcome_text (Returned idx text) chunk = text"

text \<open>The prompt that the task of position \<open>idx\<close> sends to the backend.\<close>

fun task_prompt :: "stage \<Rightarrow> world \<Rightarrow> string \<Rightarrow> string \<Rightarrow> nat \<Rightarrow> string" where
  "task_prompt Correction w chunk author idx = correction_prompt w chunk author (idx = 0)"
| "task_prompt Footnotes w chunk author idx = footnote_prompt w chunk author"

text \<open>\<open>"\n\n".join(results)\<close>, the reassembly of a stage's outputs in \<open>process_book\<close>.\<close>

fun str_join :: "string \<Rightarrow> string list \<Rightarrow> string" where
  "str_join sep [] = []"
| "str_join sep [x] = x"
| "str_join sep (x # y # ys) = x @ sep @ str_join sep (y # ys)"

text \<open>A world for concrete runs: the backend is down for the task of position 1 and
  echoes the prompt for every other task, the later task of a batch completes first, and
  SQLite raises in the cache write of position 2.\<close>

definition example_world :: world where
  "example_world = \<lparr>sha256 = (\<lambda>s. s),
         backend_call = (\<lambda>idx attempt prompt. if idx = 1 then Inl ''down'' else Inr (''ok:'' @ prompt)),
         latency = (\<lambda>idx. 3 - idx),
         db_get_fails = (\<lambda>idx. False),
         db_set_fails = (\<lambda>idx. idx = 2),
         correction_prompt = (\<lambda>chunk author first. chunk),
         footnote_prompt = (\<lambda>chunk author. chunk)\<rparr>"


text \<open>A world whose backend raises at every call, with a working cache.\<close>

definition down_world :: world where
  "down_world = \<lparr>sha256 = (\<lambda>s. s),
         backend_call = (\<lambda>idx attempt prompt. Inl ''503''),
         latency = (\<lambda>idx. idx),
         db_get_fails = (\<lambda>idx. False),
         db_set_fails = (\<lambda>idx. False),
         correction_prompt = (\<lambda>chunk author first. chunk),
         footnote_prompt = (\<lambda>chunk author. chunk)\<rparr>"

section \<open>Python string operations\<close>

text \<open>
  \<open>str.isspace\<close> on one character, which is also the class \<open>\s\<close> of \<open>re\<close> on \<open>str\<close>
  patterns: for code points below 256 these are TAB, LF, VT, FF, CR, the separators
  FS, GS, RS and US, the space, NEL and the no-break space.
\<close>

definition is_space :: "char \<Rightarrow> bool" where
  "is_space c \<longleftrightarrow>
     of_char c \<in> {9, 10, 11, 12, 13, 28, 29, 30, 31, 32, 133, 160 :: nat}"

definition lstrip :: "string \<Rightarrow> string" where
  "lstrip s = dropWhile is_space s"

definition rstrip :: "string \<Rightarrow> string" where
  "rstrip s = rev (dropWhile is_space (rev s))"

definition strip :: "string \<Rightarrow> string" where
  "strip s = rstrip (lstrip s)"

text \<open>
  \<open>s.split(sep)\<close> for a non-empty separator: the pieces between the occurrences of
  \<open>sep\<close> found from left to right, without overlap. \<open>cur\<close> is the piece being read.
  (With an empty separator Python raises \<open>ValueError\<close>; the program never does that.)
\<close>

function split_from :: "string \<Rightarrow> string \<Rightarrow> string \<Rightarrow> string list" where
  "split_from sep cur s =
     (if s = [] then [cur]
      else if sep \<noteq> [] \<and> take (length sep) s = sep then
        cur # split_from sep [] (drop (length sep) s)
      else split_from sep (cur @ [hd s]) (tl s))"
  by pat_completeness auto
termination
  by (relation "measure (\<lambda>(sep, cur, s). length s)") auto

definition str_split :: "string \<Rightarrow> string \<Rightarrow> string list" where
  "str_split sep s = split_from sep [] s"

definition newline :: string where
  "newline = [CHR 0x0A]"

text \<open>\<open>str(n)\<close> for a natural number: its decimal digits.\<close>

function str_nat :: "nat \<Rightarrow> string" where
  "str_nat n =
     (if n < 10 then [char_of (48 + n)]
      else str_nat (n div 10) @ [char_of (48 + n mod 10)])"
  by pat_completeness auto
termination
  by (relation "measure id") auto

section \<open>Document reconstruction (\<open>generate_docx\<close> of src/src/processor.py)\<close>


record footnote =
  number :: nat
  term_of :: string
  explanation :: string







section \<open>Marker processor\<close>

subsection \<open>\<open>re.sub\<close> with a replacement function\<close>

text \<open>
  \<open>pattern.sub(repl, text)\<close> scans the text once, from left to right: where the pattern
  matches at the current position, the match is replaced by what \<open>repl\<close> returns for it
  and the scan goes on after the match; elsewhere the character is copied. The two
  replacement functions of the program update a counter and a list of notes through
  \<open>nonlocal\<close> variables: that state \<open>st\<close> is threaded through the scan. \<open>matcher s\<close>
  gives the groups of the match at the start of \<open>s\<close> and the text after the match. A
  match of the two patterns below always consumes characters; the scan treats a
  matcher result that consumes nothing as no match.
\<close>

function re_sub ::
  "(string \<Rightarrow> ('m \<times> string) option) \<Rightarrow> ('m \<Rightarrow> 'st \<Rightarrow> string \<times> 'st) \<Rightarrow> string \<Rightarrow> 'st
   \<Rightarrow> string \<times> 'st" where
  "re_sub matcher repl s st =
     (if s = [] then ([], st)
      else
        (case matcher s of
           Some (m, rest) \<Rightarrow>
             (if length rest < length s then
                (let r = repl m st; out = re_sub matcher repl rest (snd r)
                 in (fst r @ fst out, snd out))
              else
                (let out = re_sub matcher repl (tl s) st in (hd s # fst out, snd out)))
         | None \<Rightarrow>
             (let out = re_sub matcher repl (tl s) st in (hd s # fst out, snd out))))"
  by pat_completeness auto
termination
  by (relation "measure (\<lambda>(matcher, repl, s, st). length s)") auto

subsection \<open>\<open>extract_footnotes\<close> (src/src/processor.py)\<close>

text \<open>
  The pattern \<open>\[NOTA:([^|]+)\|([^\]]+)\]\<close> at the start of \<open>s\<close>: the literal \<open>[NOTA:\<close>, a
  non-empty run of characters other than \<open>|\<close> up to the first \<open>|\<close>, then a non-empty run
  of characters other than \<open>]\<close> up to the first \<open>]\<close>. Each class excludes the character
  that must follow it, so the greedy runs end at the first such character and no other
  way of matching exists.
\<close>

definition match_nota :: "string \<Rightarrow> ((string \<times> string) \<times> string) option" where
  "match_nota s =
     (if take 6 s = ''[NOTA:'' then
        (let r = drop 6 s;
             g1 = takeWhile (\<lambda>c. c \<noteq> CHR ''|'') r;
             r1 = dropWhile (\<lambda>c. c \<noteq> CHR ''|'') r
         in if g1 \<noteq> [] \<and> r1 \<noteq> [] then
              (let r2 = tl r1;
                   g2 = takeWhile (\<lambda>c. c \<noteq> CHR '']'') r2;
                   r3 = dropWhile (\<lambda>c. c \<noteq> CHR '']'') r2
               in if g2 \<noteq> [] \<and> r3 \<noteq> [] then Some ((g1, g2), tl r3) else None)
            else None)
      else None)"

text \<open>The inner function \<open>replace\<close>; the state is the counter and the list \<open>footnotes\<close>.\<close>

definition replace :: "string \<times> string \<Rightarrow> nat \<times> footnote list \<Rightarrow> string \<times> (nat \<times> footnote list)" where
  "replace m st =
     (let counter = fst st;
          notes = snd st @ [\<lparr>number = counter, term_of = strip (fst m),
                             explanation = strip (snd m)\<rparr>];
          result = ''['' @ str_nat counter @ '']''
      in (result, (counter + 1, notes)))"

definition extract_footnotes :: "string \<Rightarrow> string \<times> footnote list" where
  "extract_footnotes text =
     (let out = re_sub match_nota replace text (1, []) in (fst out, snd (snd out)))"

subsection \<open>Step 3 of \<open>run_final_txt_generation\<close> (src/correcaoKDP.py)\<close>

text \<open>
  The pattern
  \<open>(\[NOTA_(?:IDIOMA|CITACAO|NOME|TERMO):[^\]]+?\])\s*(\[CONTEUDO_NOTA:([^\]]*?)\])\<close>,
  compiled with \<open>re.IGNORECASE\<close>. The letters of the pattern are ASCII, and below code
  point 256 only the two ASCII cases of a letter match it. The lazy runs exclude \<open>]\<close>
  and are followed by \<open>]\<close>, so they end at the first \<open>]\<close>; the reference must not be
  empty, the content may be.
\<close>

definition upper_ascii :: "char \<Rightarrow> char" where
  "upper_ascii c =
     (if 97 \<le> (of_char c :: nat) \<and> (of_char c :: nat) \<le> 122
      then char_of ((of_char c :: nat) - 32) else c)"

text \<open>\<open>iprefix p s\<close>: the upper-case literal \<open>p\<close> matches at the start of \<open>s\<close>, ignoring case.\<close>

definition iprefix :: "string \<Rightarrow> string \<Rightarrow> bool" where
  "iprefix p s \<longleftrightarrow> map upper_ascii (take (length p) s) = p"

definition note_kinds :: "string list" where
  "note_kinds = [''IDIOMA'', ''CITACAO'', ''NOME'', ''TERMO'']"

text \<open>The text after \<open>KIND:\<close> for the first kind of the alternation that matches.\<close>

definition after_kind :: "string \<Rightarrow> string option" where
  "after_kind s =
     (case filter (\<lambda>k. iprefix (k @ '':'') s) note_kinds of
        [] \<Rightarrow> None
      | k # ks \<Rightarrow> Some (drop (length k + 1) s))"

definition match_pair :: "string \<Rightarrow> ((string \<times> string) \<times> string) option" where
  "match_pair s =
     (if iprefix ''[NOTA_'' s then
        (case after_kind (drop 6 s) of
           None \<Rightarrow> None
         | Some r \<Rightarrow>
             (let ref = takeWhile (\<lambda>c. c \<noteq> CHR '']'') r;
                  r1 = dropWhile (\<lambda>c. c \<noteq> CHR '']'') r
              in if ref \<noteq> [] \<and> r1 \<noteq> [] then
                   (let r2 = dropWhile is_space (tl r1) in
                    if iprefix ''[CONTEUDO_NOTA:'' r2 then
                      (let r3 = drop 15 r2;
                           content = takeWhile (\<lambda>c. c \<noteq> CHR '']'') r3;
                           r4 = dropWhile (\<lambda>c. c \<noteq> CHR '']'') r3
                       in if r4 \<noteq> [] then Some ((ref, content), tl r4) else None)
                    else None)
                 else None))
      else None)"

text \<open>
  The inner function \<open>replace_marker_and_collect_note\<close>; the state is \<open>footnote_counter\<close>
  and the list \<open>notes_found\<close>.
\<close>

definition replace_marker_and_collect_note ::
  "string \<times> string \<Rightarrow> nat \<times> string list \<Rightarrow> string \<times> (nat \<times> string list)" where
  "replace_marker_and_collect_note m st =
     (let footnote_counter = fst st;
          content = strip (snd m)
      in if content = [] then ([], st)
         else (''['' @ str_nat footnote_counter @ '']'',
               (footnote_counter + 1,
                snd st @ [str_nat footnote_counter @ ''. '' @ content])))"

text \<open>
  The text and the notes that step 3 writes to its two output files:
  \<open>final_numbered_text\<close> and \<open>notes_found\<close>.
\<close>

definition run_final_txt_generation :: "string \<Rightarrow> string \<times> string list" where
  "run_final_txt_generation marked_text_content =
     (let out = re_sub match_pair replace_marker_and_collect_note marked_text_content (1, [])
      in (fst out, snd (snd out)))"

subsection \<open>The marker pairs of a text\<close>

text \<open>
  What the claims call the marker pairs of a text, in document order: the text cut into
  the matches of the pattern, found from left to right without overlap, and the
  characters between them. \<open>Pair m\<close> carries the groups of the match.
\<close>

datatype 'm segment = Plain char | Pair 'm

function segments :: "(string \<Rightarrow> ('m \<times> string) option) \<Rightarrow> string \<Rightarrow> 'm segment list" where
  "segments matcher s =
     (if s = [] then []
      else
        (case matcher s of
           Some (m, rest) \<Rightarrow>
             (if length rest < length s then Pair m # segments matcher rest
              else Plain (hd s) # segments matcher (tl s))
         | None \<Rightarrow> Plain (hd s) # segments matcher (tl s)))"
  by pat_completeness auto
termination
  by (relation "measure (\<lambda>(matcher, s). length s)") auto

text \<open>
  The groups of the valid pairs, in document order, and the number of valid pairs before
  position \<open>j\<close> of the segment list.
\<close>

fun is_valid :: "('m \<Rightarrow> bool) \<Rightarrow> 'm segment \<Rightarrow> bool" where
  "is_valid valid (Plain c) = False"
| "is_valid valid (Pair m) = valid m"

fun pair_groups :: "'m segment list \<Rightarrow> 'm list" where
  "pair_groups [] = []"
| "pair_groups (Plain c # segs) = pair_groups segs"
| "pair_groups (Pair m # segs) = m # pair_groups segs"

definition valid_pairs :: "('m \<Rightarrow> bool) \<Rightarrow> 'm segment list \<Rightarrow> 'm list" where
  "valid_pairs valid segs = filter valid (pair_groups segs)"

definition valid_before :: "('m \<Rightarrow> bool) \<Rightarrow> 'm segment list \<Rightarrow> nat \<Rightarrow> nat" where
  "valid_before valid segs j = length (filter (is_valid valid) (take j segs))"

text \<open>
  The text that stands in the clean text for the segment at position \<open>j\<close>, as the spec
  words it: a character stays, the \<open>k\<close>-th valid pair becomes \<open>[k]\<close>, and a pair that is
  not valid is removed.
\<close>

definition segment_text :: "('m \<Rightarrow> bool) \<Rightarrow> 'm segment list \<Rightarrow> nat \<Rightarrow> string" where
  "segment_text valid segs j =
     (case segs ! j of
        Plain c \<Rightarrow> [c]
      | Pair m \<Rightarrow>
          (if valid m then ''['' @ str_nat (Suc (valid_before valid segs j)) @ '']'' else []))"

definition renumbered_text :: "('m \<Rightarrow> bool) \<Rightarrow> 'm segment list \<Rightarrow> string" where
  "renumbered_text valid segs = concat (map (segment_text valid segs) [0..<length segs])"

text \<open>A pair of the KDP protocol is valid when its explanation is not blank.\<close>

definition has_content :: "string \<times> string \<Rightarrow> bool" where
  "has_content m \<longleftrightarrow> strip (snd m) \<noteq> []"

text \<open>
  The same replacement told along the segment list: \<open>k\<close> is the number of the next valid
  pair.
\<close>

fun render_from :: "('m \<Rightarrow> bool) \<Rightarrow> nat \<Rightarrow> 'm segment list \<Rightarrow> string" where
  "render_from valid k [] = []"
| "render_from valid k (Plain c # segs) = c # render_from valid k segs"
| "render_from valid k (Pair m # segs) =
     (if valid m then ''['' @ str_nat k @ '']'' @ render_from valid (Suc k) segs
      else render_from valid k segs)"

text \<open>The notes of a list of valid pairs, numbered from \<open>k\<close> on.\<close>

fun number_from :: "(nat \<Rightarrow> 'm \<Rightarrow> 'n) \<Rightarrow> nat \<Rightarrow> 'm list \<Rightarrow> 'n list" where
  "number_from mk k [] = []"
| "number_from mk k (m # ms) = mk k m # number_from mk (Suc k) ms"

text \<open>The text for the segment at position \<open>j\<close> when the pairs are numbered from \<open>k\<close> on.\<close>

definition seg_out :: "('m \<Rightarrow> bool) \<Rightarrow> nat \<Rightarrow> 'm segment list \<Rightarrow> nat \<Rightarrow> string" where
  "seg_out valid k segs j =
     (case segs ! j of
        Plain c \<Rightarrow> [c]
      | Pair m \<Rightarrow>
          (if valid m then ''['' @ str_nat (k + valid_before valid segs j) @ '']'' else []))"

section \<open>Chunker\<close>

subsection \<open>Sentence split\<close>

text \<open>
  \<open>re.split(r'(?<=[.!?])\s+', s)\<close>: a match starts right after one of the characters
  \<open>.\<close>, \<open>!\<close>, \<open>?\<close> when a whitespace character follows, and takes the whole run of
  whitespace; the pieces between the matches are returned. \<open>cur\<close> is the piece being
  read. A match cannot start inside a run of whitespace, since the character before it
  must be one of the three.
\<close>

definition sentence_end :: "char \<Rightarrow> bool" where
  "sentence_end c \<longleftrightarrow> c \<in> set ''.!?''"

function split_sentences_from :: "string \<Rightarrow> string \<Rightarrow> string list" where
  "split_sentences_from cur s =
     (if s = [] then [cur]
      else if sentence_end (hd s) \<and> tl s \<noteq> [] \<and> is_space (hd (tl s)) then
        (cur @ [hd s]) # split_sentences_from [] (dropWhile is_space (tl s))
      else split_sentences_from (cur @ [hd s]) (tl s))"
  by pat_completeness auto
termination
  by (relation "measure (\<lambda>(cur, s). length s)")
    (auto simp: less_Suc_eq_le length_dropWhile_le intro: le_less_trans [OF length_dropWhile_le])

definition re_split_sentences :: "string \<Rightarrow> string list" where
  "re_split_sentences s = split_sentences_from [] s"

text \<open>\<open>s.endswith(suffix)\<close>.\<close>

definition endswith :: "string \<Rightarrow> string \<Rightarrow> bool" where
  "endswith s suf \<longleftrightarrow> length suf \<le> length s \<and> drop (length s - length suf) s = suf"

subsection \<open>\<open>create_chunks\<close> (src/src/processor.py)\<close>

text \<open>
  \<open>count_tokens\<close> is the estimate the module defines when \<open>tiktoken\<close> cannot be imported;
  with \<open>tiktoken\<close> installed the count comes from that library's encoder, which is not
  part of the repository.
\<close>

definition count_tokens :: "string \<Rightarrow> int" where
  "count_tokens text = (if text \<noteq> [] then int (length text) div 4 else 0)"

text \<open>
  The body of the loop over the sentences of a large paragraph; the state is \<open>chunks\<close>,
  \<open>sub\<close> and \<open>sub_tokens\<close>.
\<close>

fun sentence_step :: "int \<Rightarrow> string \<Rightarrow> string list \<times> string \<times> int \<Rightarrow> string list \<times> string \<times> int" where
  "sentence_step max_tokens sent (chunks, sub, sub_tokens) =
     (let sent_tokens = count_tokens sent in
      if sub_tokens + sent_tokens + 1 \<le> max_tokens then
        (let sub1 = sub @ (if sub \<noteq> [] then '' '' else []) @ sent
         in (chunks, sub1, count_tokens sub1))
      else
        (let chunks1 = (if sub \<noteq> [] then chunks @ [sub] else chunks) in
         if sent_tokens > max_tokens then (chunks1 @ [sent], [], 0)
         else (chunks1, sent, sent_tokens)))"

text \<open>
  The body of the loop over the paragraphs; the state is \<open>chunks\<close>, \<open>current\<close> and
  \<open>current_tokens\<close>.
\<close>

fun paragraph_step :: "int \<Rightarrow> string \<Rightarrow> string list \<times> string \<times> int \<Rightarrow> string list \<times> string \<times> int" where
  "paragraph_step max_tokens para0 (chunks, current, current_tokens) =
     (let para = strip para0 in
      if para = [] then (chunks, current, current_tokens)
      else
        (let para_tokens = count_tokens para in
         if current_tokens + para_tokens + 2 \<le> max_tokens then
           (let current1 = current @ (if current \<noteq> [] then para_sep else []) @ para
            in (chunks, current1, count_tokens current1))
         else
           (let chunks1 = (if current \<noteq> [] then chunks @ [current] else chunks) in
            if para_tokens > max_tokens then
              (case fold (sentence_step max_tokens) (re_split_sentences para) (chunks1, [], 0) of
                 (chunks2, sub, sub_tokens) \<Rightarrow>
                   (chunks2, (if sub \<noteq> [] then sub else []), (if sub \<noteq> [] then sub_tokens else 0)))
            else (chunks1, para, para_tokens))))"

text \<open>The body of the merge loop; the state is \<open>merged\<close>, \<open>temp\<close> and \<open>temp_tokens\<close>.\<close>

fun merge_step :: "int \<Rightarrow> string \<Rightarrow> string list \<times> string \<times> int \<Rightarrow> string list \<times> string \<times> int" where
  "merge_step max_tokens chunk (merged, temp, temp_tokens) =
     (let chunk_tokens = count_tokens chunk in
      if temp_tokens + chunk_tokens + 2 \<le> max_tokens then
        (let temp1 = temp @ (if temp \<noteq> [] then para_sep else []) @ chunk
         in (merged, temp1, count_tokens temp1))
      else ((if temp \<noteq> [] then merged @ [temp] else merged), chunk, chunk_tokens))"

text \<open>What a loop leaves: the saved chunks, and the chunk in progress when it is not empty.\<close>

fun flush :: "string list \<times> string \<times> int \<Rightarrow> string list" where
  "flush (chunks, current, current_tokens) = (if current \<noteq> [] then chunks @ [current] else chunks)"

definition create_chunks :: "string \<Rightarrow> int \<Rightarrow> string list" where
  "create_chunks text max_tokens =
     (if text = [] \<or> strip text = [] then []
      else
        (let chunks = flush (fold (paragraph_step max_tokens) (str_split para_sep text) ([], [], 0))
         in flush (fold (merge_step max_tokens) chunks ([], [], 0))))"

subsection \<open>\<open>create_chunks\<close> (src/correcaoKDP.py)\<close>

definition count_tokens_approx :: "string \<Rightarrow> int" where
  "count_tokens_approx text = (if text = [] then 0 else int (length text) div 3)"

text \<open>
  The body of the loop over the sentences (or lines) of a large paragraph; the state is
  \<open>chunks\<close>, \<open>current_sub_chunk\<close>, \<open>current_sub_chunk_tokens\<close> and
  \<open>sub_chunks_added_count\<close>.
\<close>

fun kdp_sentence_step ::
  "int \<Rightarrow> string \<Rightarrow> string list \<times> string \<times> int \<times> nat \<Rightarrow> string list \<times> string \<times> int \<times> nat" where
  "kdp_sentence_step max_tokens sentence (chunks, sub, sub_tokens, added) =
     (if strip sentence = [] then (chunks, sub, sub_tokens, added)
      else
        (let sentence_tokens = count_tokens_approx sentence;
             tokens_with_sub_separator =
               sentence_tokens + (if sub \<noteq> [] then count_tokens_approx newline else 0)
         in if sub_tokens + tokens_with_sub_separator \<le> max_tokens then
              (let sub1 = sub @ (if sub \<noteq> [] then newline else []) @ sentence
               in (chunks, sub1, count_tokens_approx sub1, added))
            else
              (let chunks1 = (if sub \<noteq> [] then chunks @ [sub] else chunks);
                   added1 = (if sub \<noteq> [] then added + 1 else added)
               in if sentence_tokens > max_tokens then (chunks1 @ [sentence], [], 0, added1 + 1)
                  else (chunks1, sentence, sentence_tokens, added1))))"

text \<open>
  The subdivision of a paragraph larger than the limit: by sentences, or by lines when
  the sentence split gives a single piece; the last sub-chunk is saved, and the whole
  paragraph when nothing was saved.
\<close>

definition subdivide :: "int \<Rightarrow> string \<Rightarrow> string list \<Rightarrow> string list" where
  "subdivide max_tokens paragraph_text chunks =
     (let sentences0 = re_split_sentences paragraph_text;
          sentences = (if length sentences0 \<le> 1 then str_split newline paragraph_text
                       else sentences0)
      in case fold (kdp_sentence_step max_tokens) sentences (chunks, [], 0, 0) of
           (chunks1, sub, sub_tokens, added) \<Rightarrow>
             (let chunks2 = (if sub \<noteq> [] then chunks1 @ [sub] else chunks1);
                  added2 = (if sub \<noteq> [] then added + 1 else added)
              in if added2 = 0 then chunks2 @ [paragraph_text] else chunks2))"

text \<open>
  The body of the loop over the paragraphs; the state is \<open>chunks\<close>, \<open>current_chunk\<close> and
  \<open>current_chunk_tokens\<close>. A blank paragraph is skipped, after \<open>"\n\n"\<close> is added to the
  last saved chunk when that chunk is not blank and does not end with it.
\<close>

fun kdp_paragraph_step ::
  "int \<Rightarrow> string \<Rightarrow> string list \<times> string \<times> int \<Rightarrow> string list \<times> string \<times> int" where
  "kdp_paragraph_step max_tokens paragraph_text (chunks, current_chunk, current_chunk_tokens) =
     (if strip paragraph_text = [] then
        (if chunks \<noteq> [] \<and> strip (last chunks) \<noteq> [] \<and> \<not> endswith (last chunks) para_sep then
           (butlast chunks @ [last chunks @ para_sep], current_chunk, current_chunk_tokens)
         else (chunks, current_chunk, current_chunk_tokens))
      else
        (let paragraph_tokens = count_tokens_approx paragraph_text;
             tokens_with_separator =
               paragraph_tokens + (if current_chunk \<noteq> [] then count_tokens_approx para_sep else 0)
         in if current_chunk_tokens + tokens_with_separator \<le> max_tokens then
              (let current1 = current_chunk @ (if current_chunk \<noteq> [] then para_sep else [])
                                @ paragraph_text
               in (chunks, current1, count_tokens_approx current1))
            else
              (let chunks1 = (if current_chunk \<noteq> [] then chunks @ [current_chunk] else chunks)
               in if paragraph_tokens > max_tokens then
                    (subdivide max_tokens paragraph_text chunks1, [], 0)
                  else (chunks1, paragraph_text, paragraph_tokens))))"

fun kdp_merge_step :: "int \<Rightarrow> string \<Rightarrow> string list \<times> string \<times> int \<Rightarrow> string list \<times> string \<times> int" where
  "kdp_merge_step max_tokens chunk (merged_chunks, temp_chunk, temp_chunk_tokens) =
     (let chunk_tokens = count_tokens_approx chunk;
          tokens_with_separator =
            chunk_tokens + (if temp_chunk \<noteq> [] then count_tokens_approx para_sep else 0)
      in if temp_chunk_tokens + tokens_with_separator \<le> max_tokens then
           (let temp1 = temp_chunk @ (if temp_chunk \<noteq> [] then para_sep else []) @ chunk
            in (merged_chunks, temp1, count_tokens_approx temp1))
         else ((if temp_chunk \<noteq> [] then merged_chunks @ [temp_chunk] else merged_chunks),
               chunk, chunk_tokens))"

definition kdp_create_chunks :: "string \<Rightarrow> int \<Rightarrow> string list" where
  "kdp_create_chunks text max_tokens =
     (let chunks = flush (fold (kdp_paragraph_step max_tokens) (str_split para_sep text) ([], [], 0))
      in flush (fold (kdp_merge_step max_tokens) chunks ([], [], 0)))"

text \<open>The characters of a text that are not whitespace, in order.\<close>

definition visible :: "string \<Rightarrow> string" where
  "visible s = filter (\<lambda>c. \<not> is_space c) s"

text \<open>
  A state of one of the loops of processor.py is within the limit \<open>m\<close>, up to the
  sentences \<open>S\<close> that may be saved alone: every saved chunk and the chunk in progress
  has at most \<open>m\<close> tokens or is one of \<open>S\<close>, and the recorded count is the count of the
  chunk in progress.
\<close>

definition within_limit :: "int \<Rightarrow> string set \<Rightarrow> string \<Rightarrow> bool" where
  "within_limit m S c \<longleftrightarrow> count_tokens c \<le> m \<or> c \<in> S"

definition bounded_state :: "int \<Rightarrow> string set \<Rightarrow> string list \<times> string \<times> int \<Rightarrow> bool" where
  "bounded_state m S st \<longleftrightarrow>
     list_all (within_limit m S) (fst st)
     \<and> snd (snd st) = count_tokens (fst (snd st))
     \<and> (fst (snd st) = [] \<or> within_limit m S (fst (snd st)))"

subsection \<open>The pieces of a text\<close>

text \<open>
  What the chunkers keep of a text, word for word. \<open>create_chunks\<close> of processor.py
  keeps every paragraph that is not blank, stripped, as one piece; a paragraph over the
  limit is kept as its sentences. \<open>create_chunks\<close> of correcaoKDP.py keeps a paragraph
  that is not blank as it is, and a paragraph over the limit as its sentences (or its
  lines) that are not blank.
\<close>

definition paragraph_pieces :: "int \<Rightarrow> string \<Rightarrow> string list" where
  "paragraph_pieces max_tokens para0 =
     (let para = strip para0 in
      if para = [] then []
      else if count_tokens para > max_tokens then
        filter (\<lambda>sent. sent \<noteq> []) (re_split_sentences para)
      else [para])"

definition pieces :: "int \<Rightarrow> string \<Rightarrow> string list" where
  "pieces max_tokens text = concat (map (paragraph_pieces max_tokens) (str_split para_sep text))"

definition kdp_sentences :: "string \<Rightarrow> string list" where
  "kdp_sentences paragraph_text =
     (if length (re_split_sentences paragraph_text) \<le> 1 then str_split newline paragraph_text
      else re_split_sentences paragraph_text)"

definition kdp_paragraph_pieces :: "int \<Rightarrow> string \<Rightarrow> string list" where
  "kdp_paragraph_pieces max_tokens paragraph_text =
     (if strip paragraph_text = [] then []
      else if count_tokens_approx paragraph_text > max_tokens then
        filter (\<lambda>sentence. strip sentence \<noteq> []) (kdp_sentences paragraph_text)
      else [paragraph_text])"

definition kdp_pieces :: "int \<Rightarrow> string \<Rightarrow> string list" where
  "kdp_pieces max_tokens text =
     concat (map (kdp_paragraph_pieces max_tokens) (str_split para_sep text))"

text \<open>
  \<open>spaced ps s\<close>: the string \<open>s\<close> is the pieces \<open>ps\<close>, in order and each one verbatim,
  with nothing but whitespace (possibly none) before, between and after them.
  \<open>chunked ps cs\<close>: the chunks \<open>cs\<close> divide the pieces \<open>ps\<close> among them, in order: every
  chunk is a run of consecutive pieces with whitespace around them, and no piece is cut
  by the end of a chunk.
\<close>

definition blank :: "string \<Rightarrow> bool" where
  "blank s \<longleftrightarrow> list_all is_space s"

inductive spaced :: "string list \<Rightarrow> string \<Rightarrow> bool" where
  spaced_Nil: "blank w \<Longrightarrow> spaced [] w"
| spaced_Cons: "blank w \<Longrightarrow> spaced ps s \<Longrightarrow> spaced (p # ps) (w @ p @ s)"

inductive chunked :: "string list \<Rightarrow> string list \<Rightarrow> bool" where
  chunked_Nil: "chunked [] []"
| chunked_Cons: "spaced g c \<Longrightarrow> chunked ps cs \<Longrightarrow> chunked (g @ ps) (c # cs)"

text \<open>
  A state of one of the loops has been built from the pieces \<open>ps\<close>: the saved chunks
  divide the first of them, and the chunk in progress is the rest.
\<close>

definition built :: "string list \<Rightarrow> string list \<times> string \<times> 'a \<Rightarrow> bool" where
  "built ps st \<longleftrightarrow>
     (\<exists>ps1 ps2. ps = ps1 @ ps2 \<and> chunked ps1 (fst st) \<and> spaced ps2 (fst (snd st)))"

section \<open>Theorems on the cache\<close>







text \<open>
  C10. The two stages' stores are disjoint: a write of a correction leaves every
  \<open>get_footnotes\<close> unchanged (the whole \<open>footnotes\<close> table, in fact), and a write of a
  footnotes entry leaves every \<open>get_correction\<close> unchanged.
\<close>

theorem cache_stores_disjoint:
  "get_footnotes sha (set_correction sha c t r m) t' = get_footnotes sha c t'
   \<and> get_correction sha (set_footnotes sha c t r m) t' = get_correction sha c t'
   \<and> footnotes (set_correction sha c t r m) = footnotes c
   \<and> corrections (set_footnotes sha c t r m) = corrections c"
  by (simp add: get_footnotes_def get_correction_def set_correction_def set_footnotes_def)

section \<open>Theorems on the transform client\<close>

declare generate_from.simps [simp del]

declare call_gemini_from.simps [simp del]

lemma generate_from_calls:
  "backend_calls (snd (generate_from call client prompt m attempt)) \<le> m - attempt"
proof (induction call client prompt m attempt rule: generate_from.induct)
  case (1 call client prompt m attempt)
  show ?case
  proof (cases "attempt < m")
    case False
    then show ?thesis by (simp add: generate_from.simps)
  next
    case True
    show ?thesis
    proof (cases "backend client = OtherBackend")
      case other: True
      then show ?thesis
        using True "1.IH"(1) by (subst generate_from.simps) simp
    next
      case known: False
      show ?thesis
      proof (cases "call attempt prompt")
        case (Inr t)
        then show ?thesis
          using True known by (subst generate_from.simps) simp
      next
        case (Inl e)
        have "backend_calls (snd (generate_from call client prompt m (Suc attempt)))
              \<le> m - Suc attempt"
          using "1.IH"(2) [OF True known Inl] by simp
        then show ?thesis
          using True known Inl by (subst generate_from.simps) (simp add: Let_def)
      qed
    qed
  qed
qed

lemma generate_from_all_fail:
  "(\<And>a. attempt \<le> a \<Longrightarrow> a < m \<Longrightarrow> isl (call a prompt)) \<Longrightarrow>
   fst (generate_from call client prompt m attempt) = None"
proof (induction call client prompt m attempt rule: generate_from.induct)
  case (1 call client prompt m attempt)
  show ?case
  proof (cases "attempt < m")
    case False
    then show ?thesis by (simp add: generate_from.simps)
  next
    case True
    show ?thesis
    proof (cases "backend client = OtherBackend")
      case other: True
      then show ?thesis
        using True "1.IH"(1) "1.prems" by (subst generate_from.simps) simp
    next
      case known: False
      from "1.prems" [of attempt] True obtain e where Inl: "call attempt prompt = Inl e"
        by (cases "call attempt prompt") auto
      have "fst (generate_from call client prompt m (Suc attempt)) = None"
        using "1.IH"(2) [OF True known Inl] "1.prems" by simp
      then show ?thesis
        using True known Inl by (subst generate_from.simps) (simp add: Let_def)
    qed
  qed
qed

lemma call_gemini_from_unfold:
  "attempt < m \<Longrightarrow>
   call_gemini_from resp jitter m base attempt =
     (if usable (resp attempt) then (case resp attempt of Candidate (Inr t) \<Rightarrow> (Some t, [ApiCall attempt]) | _ \<Rightarrow> (None, []))
      else if resp attempt = PromptBlocked then (None, [ApiCall attempt])
      else
        (let base' = (if is_quota_failure (resp attempt) then max 15 base else base)
         in if Suc attempt < m then
              (let rest = call_gemini_from resp jitter m base' (Suc attempt)
               in (fst rest, ApiCall attempt # ApiSleep base' attempt (jitter attempt) # snd rest))
            else (None, [ApiCall attempt])))"
  by (subst call_gemini_from.simps)
    (auto simp: Let_def split: api_response.splits sum.splits list.splits)

lemma call_gemini_from_done:
  "\<not> attempt < m \<Longrightarrow> call_gemini_from resp jitter m base attempt = (None, [])"
  by (subst call_gemini_from.simps) simp


lemma call_gemini_from_calls:
  "api_calls (snd (call_gemini_from resp jitter m base attempt)) \<le> m - attempt"
proof (induction "m - attempt" arbitrary: attempt base)
  case 0
  then show ?case by (simp add: call_gemini_from_done)
next
  case (Suc n)
  then have lt: "attempt < m" and n: "n = m - Suc attempt" by simp_all
  have IH: "\<And>b. api_calls (snd (call_gemini_from resp jitter m b (Suc attempt))) \<le> m - Suc attempt"
    using Suc.hyps(1) [OF n] .
  have step: "\<And>b. Suc (api_calls (snd (call_gemini_from resp jitter m b (Suc attempt))))
                 \<le> m - attempt"
  proof -
    fix b
    have "m - Suc attempt < m - attempt" using lt by arith
    with IH [of b] show "Suc (api_calls (snd (call_gemini_from resp jitter m b (Suc attempt))))
                 \<le> m - attempt"
      by arith
  qed
  show ?case
    unfolding call_gemini_from_unfold [OF lt]
    using step lt
    by (auto simp: Let_def Suc_le_eq split: api_response.splits sum.splits list.splits)
qed

lemma call_gemini_from_all_fail:
  "(\<And>a. attempt \<le> a \<Longrightarrow> a < m \<Longrightarrow> \<not> usable (resp a)) \<Longrightarrow>
   fst (call_gemini_from resp jitter m base attempt) = None"
proof (induction "m - attempt" arbitrary: attempt base)
  case 0
  then show ?case by (simp add: call_gemini_from_done)
next
  case (Suc n)
  then have lt: "attempt < m" and n: "n = m - Suc attempt" by simp_all
  have IH: "\<And>b. fst (call_gemini_from resp jitter m b (Suc attempt)) = None"
    using Suc.hyps(1) [OF n] Suc.prems by simp
  have here: "\<not> usable (resp attempt)"
    using Suc.prems [of attempt] lt by simp
  show ?case
    unfolding call_gemini_from_unfold [OF lt]
    using IH here by (simp add: Let_def)
qed

lemma call_gemini_from_sleep_base:
  "ApiSleep b a j \<in> set (snd (call_gemini_from resp jitter m base attempt)) \<Longrightarrow>
   attempt \<le> a \<and> b = (if quota_seen resp attempt a then max 15 base else base)"
proof (induction "m - attempt" arbitrary: attempt base)
  case 0
  then show ?case by (simp add: call_gemini_from_done)
next
  case (Suc n)
  then have lt: "attempt < m" and n: "n = m - Suc attempt" by simp_all
  let ?base' = "if is_quota_failure (resp attempt) then max 15 base else base"
  have seen: "\<And>a. attempt \<le> a \<Longrightarrow>
      quota_seen resp attempt a
      = (is_quota_failure (resp attempt) \<or> (attempt < a \<and> quota_seen resp (Suc attempt) a))"
  proof -
    fix a assume le: "attempt \<le> a"
    have qs: "\<And>f. quota_seen resp f a = (\<exists>b. f \<le> b \<and> b \<le> a \<and> is_quota_failure (resp b))"
      by (auto simp: quota_seen_def list_ex_iff less_Suc_eq_le)
    show "quota_seen resp attempt a
      = (is_quota_failure (resp attempt) \<or> (attempt < a \<and> quota_seen resp (Suc attempt) a))"
    proof
      assume "quota_seen resp attempt a"
      then obtain b where b: "attempt \<le> b" "b \<le> a" "is_quota_failure (resp b)"
        unfolding qs by blast
      show "is_quota_failure (resp attempt) \<or> (attempt < a \<and> quota_seen resp (Suc attempt) a)"
      proof (cases "b = attempt")
        case True
        with b show ?thesis by simp
      next
        case False
        with b have "Suc attempt \<le> b" "attempt < a" by simp_all
        with b show ?thesis unfolding qs by blast
      qed
    next
      assume "is_quota_failure (resp attempt) \<or> (attempt < a \<and> quota_seen resp (Suc attempt) a)"
      then show "quota_seen resp attempt a"
        unfolding qs using le by (auto intro: Suc_leD)
    qed
  qed
  from Suc.prems consider
      (here) "a = attempt" "b = ?base'" "Suc attempt < m"
    | (later) "ApiSleep b a j \<in> set (snd (call_gemini_from resp jitter m ?base' (Suc attempt)))"
    unfolding call_gemini_from_unfold [OF lt]
    by (auto simp: Let_def split: if_splits api_response.splits sum.splits list.splits)
  then show ?case
  proof cases
    case here
    then show ?thesis
      using seen [of attempt] by simp
  next
    case later
    from Suc.hyps(1) [OF n later]
    have a: "Suc attempt \<le> a"
      and b: "b = (if quota_seen resp (Suc attempt) a then max 15 ?base' else ?base')"
      by simp_all
    have "attempt \<le> a" "attempt < a" using a by simp_all
    then show ?thesis
      using b seen [of a] by auto
  qed
qed


lemma sleeps_append: "sleeps (xs @ ys) = sleeps xs @ sleeps ys"
  by (induction xs rule: sleeps.induct) simp_all

lemma generate_from_sleeps:
  "sleeps (snd (generate_from call client prompt m a0))
   = map (\<lambda>a. RETRY_BASE_WAIT * 2 ^ a)
       [a0..<a0 + length (sleeps (snd (generate_from call client prompt m a0)))]"
proof (induction "m - a0" arbitrary: a0 rule: less_induct)
  case less
  show ?case
  proof (cases "a0 < m")
    case False
    then show ?thesis
      by (subst (1 2) generate_from.simps) simp
  next
    case True
    then have dec: "m - Suc a0 < m - a0" by arith
    note IH = less.hyps [OF dec]
    let ?rest = "generate_from call client prompt m (Suc a0)"
    show ?thesis
    proof (cases "backend client = OtherBackend")
      case other: True
      have eq: "generate_from call client prompt m a0 = ?rest"
        using True other by (subst generate_from.simps) simp
      have none: "sleeps (snd (generate_from call client prompt m k)) = []" for k
      proof (induction "m - k" arbitrary: k rule: less_induct)
        case less
        show ?case
        proof (cases "k < m")
          case False
          then show ?thesis by (subst generate_from.simps) simp
        next
          case True
          then have "m - Suc k < m - k" by arith
          from less.hyps [OF this] show ?thesis
            using True other by (subst generate_from.simps) simp
        qed
      qed
      show ?thesis
        by (simp add: none)
    next
      case real: False
      show ?thesis
      proof (cases "call a0 prompt")
        case (Inr t)
        have "generate_from call client prompt m a0 = (Some t, [BackendCall a0])"
          using True real Inr by (subst generate_from.simps) simp
        then show ?thesis by simp
      next
        case (Inl e)
        show ?thesis
        proof (cases "Suc a0 < m")
          case last: False
          have "?rest = (None, [])"
            using last by (subst generate_from.simps) simp
          then have "generate_from call client prompt m a0 = (None, [BackendCall a0])"
            using True real Inl last by (subst generate_from.simps) (simp add: Let_def)
          then show ?thesis by simp
        next
          case more: True
          have eq: "snd (generate_from call client prompt m a0)
                = BackendCall a0 # Sleep (RETRY_BASE_WAIT * 2 ^ a0) # snd ?rest"
            using True real Inl more by (subst generate_from.simps) (simp add: Let_def)
          define n where "n = length (sleeps (snd ?rest))"
          have r: "sleeps (snd ?rest) = map (\<lambda>a. RETRY_BASE_WAIT * 2 ^ a) [Suc a0..<Suc a0 + n]"
            unfolding n_def by (rule IH)
          have "sleeps (snd (generate_from call client prompt m a0))
                = (RETRY_BASE_WAIT * 2 ^ a0) # sleeps (snd ?rest)"
            by (simp add: eq)
          also have "\<dots> = (RETRY_BASE_WAIT * 2 ^ a0)
                # map (\<lambda>a. RETRY_BASE_WAIT * 2 ^ a) [Suc a0..<Suc a0 + n]"
            by (simp only: r)
          also have "\<dots> = map (\<lambda>a. RETRY_BASE_WAIT * 2 ^ a) [a0..<a0 + Suc n]"
            by (simp add: upt_conv_Cons)
          finally have s: "sleeps (snd (generate_from call client prompt m a0))
                = map (\<lambda>a. RETRY_BASE_WAIT * 2 ^ a) [a0..<a0 + Suc n]" .
          have "length (sleeps (snd (generate_from call client prompt m a0))) = Suc n"
            by (simp only: s length_map length_upt) 
          then show ?thesis
            using s by (simp only:)
        qed
      qed
    qed
  qed
qed

text \<open>
  C7 as stated does not hold for \<open>ModelClient.generate\<close>: its wait is
  \<open>RETRY_BASE_WAIT * 2 ** attempt\<close> whatever the exception. When every call raises a
  quota error (\<open>429\<close>, \<open>RESOURCE_EXHAUSTED\<close>), the waits are 5, 10, 20 and 40 seconds,
  the same as for any other error: the base wait is not increased.
\<close>

theorem generate_quota_wait_counterexample:
  "snd (generate (\<lambda>attempt prompt. Inl ''429 RESOURCE_EXHAUSTED'')
          \<lparr>backend = Gemini, model_name = ''m''\<rparr> ''p'' MAX_RETRIES)
     = [BackendCall 0, Sleep 5, BackendCall 1, Sleep 10, BackendCall 2, Sleep 20,
        BackendCall 3, Sleep 40, BackendCall 4]
   \<and> quota_error ''429 RESOURCE_EXHAUSTED''"
  by (simp add: generate_def MAX_RETRIES_def RETRY_BASE_WAIT_def generate_from.simps Let_def
      quota_error_def sublist_code)

text \<open>
  C7, amended. One transform call invokes the external service at most 5 times:
  \<open>_call_gemini_api\<close> with its fixed limit, \<open>generate\<close> at most \<open>max_retries\<close> times,
  which is 5 for the default \<open>MAX_RETRIES\<close>. When no attempt yields a usable text, both
  return \<open>None\<close>; neither has an exceptional outcome, every exception of the service
  being caught inside the loop. Only \<open>_call_gemini_api\<close> has a quota rule: the base of
  every wait is 5 seconds until an attempt raises a quota error (\<open>RESOURCE_EXHAUSTED\<close>
  or \<open>429\<close>), and 15 seconds from that attempt on. In \<open>generate\<close> the \<open>k\<close>-th wait
  (counted from 0) is \<open>RETRY_BASE_WAIT * 2 ^ k\<close>, whatever the failures were.
\<close>

theorem transform_client_retry_limit:
  "api_calls (snd (call_gemini_api resp jitter)) \<le> 5
   \<and> ((\<forall>a < 5. \<not> usable (resp a)) \<longrightarrow> fst (call_gemini_api resp jitter) = None)
   \<and> (\<forall>b a j. ApiSleep b a j \<in> set (snd (call_gemini_api resp jitter))
         \<longrightarrow> b = (if quota_seen resp 0 a then 15 else 5))
   \<and> backend_calls (snd (generate call client prompt max_retries)) \<le> max_retries
   \<and> backend_calls (snd (generate call client prompt MAX_RETRIES)) \<le> 5
   \<and> ((\<forall>a < max_retries. isl (call a prompt))
        \<longrightarrow> fst (generate call client prompt max_retries) = None)
   \<and> sleeps (snd (generate call client prompt max_retries))
       = map (\<lambda>k. RETRY_BASE_WAIT * 2 ^ k)
           [0..<length (sleeps (snd (generate call client prompt max_retries)))]"
proof (intro conjI impI allI)
  show "api_calls (snd (call_gemini_api resp jitter)) \<le> 5"
    using call_gemini_from_calls [of resp jitter 5 5 0]
    by (simp add: call_gemini_api_def kdp_max_retries_def)
next
  assume "\<forall>a < 5. \<not> usable (resp a)"
  then show "fst (call_gemini_api resp jitter) = None"
    unfolding call_gemini_api_def kdp_max_retries_def
    by (intro call_gemini_from_all_fail) simp
next
  fix b a j
  assume "ApiSleep b a j \<in> set (snd (call_gemini_api resp jitter))"
  then have "ApiSleep b a j \<in> set (snd (call_gemini_from resp jitter kdp_max_retries 5 0))"
    by (simp add: call_gemini_api_def)
  from call_gemini_from_sleep_base [OF this]
  show "b = (if quota_seen resp 0 a then 15 else 5)"
    by simp
next
  show "backend_calls (snd (generate call client prompt max_retries)) \<le> max_retries"
    using generate_from_calls [of call client prompt max_retries 0]
    by (simp add: generate_def)
next
  show "backend_calls (snd (generate call client prompt MAX_RETRIES)) \<le> 5"
    using generate_from_calls [of call client prompt 5 0]
    by (simp add: generate_def MAX_RETRIES_def)
next
  assume "\<forall>a < max_retries. isl (call a prompt)"
  then show "fst (generate call client prompt max_retries) = None"
    unfolding generate_def by (intro generate_from_all_fail) simp
next
  show "sleeps (snd (generate call client prompt max_retries))
       = map (\<lambda>k. RETRY_BASE_WAIT * 2 ^ k)
           [0..<length (sleeps (snd (generate call client prompt max_retries)))]"
    using generate_from_sleeps [of call client prompt max_retries 0]
    by (simp only: generate_def add_0)
qed

theorem transform_client_retry_limit_witness:
  "list_all (\<lambda>a. \<not> usable (example_resp a)) [0..<5]
   \<and> fst (call_gemini_api example_resp (\<lambda>a. 255)) = None
   \<and> api_calls (snd (call_gemini_api example_resp (\<lambda>a. 255))) = 5
   \<and> ApiSleep 15 1 255 \<in> set (snd (call_gemini_api example_resp (\<lambda>a. 255)))
   \<and> quota_seen example_resp 0 1
   \<and> list_all (\<lambda>a. isl (backend_call down_world 0 a ''p'')) [0..<5]
   \<and> fst (generate (backend_call down_world 0) \<lparr>backend = Gemini, model_name = ''m''\<rparr> ''p'' 5)
       = None"
proof -
  have run: "call_gemini_api example_resp (\<lambda>a. 255) =
    (None, [ApiCall 0, ApiSleep 15 0 255, ApiCall 1, ApiSleep 15 1 255, ApiCall 2,
            ApiSleep 15 2 255, ApiCall 3, ApiSleep 15 3 255, ApiCall 4])"
    by (simp add: call_gemini_api_def kdp_max_retries_def call_gemini_from.simps example_resp_def
        quota_error_def sublist_code Let_def)
  have h1: "\<forall>a < 5. \<not> usable (example_resp a)"
    by (simp add: example_resp_def)
  have h2: "\<forall>a < 5. isl (backend_call down_world 0 a ''p'')"
    by (simp add: down_world_def)
  have q: "quota_seen example_resp 0 1"
    by (simp add: quota_seen_def example_resp_def quota_error_def sublist_code)
  note T = transform_client_retry_limit [of example_resp "\<lambda>a. 255" "backend_call down_world 0"
      "\<lparr>backend = Gemini, model_name = ''m''\<rparr>" "''p''" 5]
  have r1: "fst (call_gemini_api example_resp (\<lambda>a. 255)) = None"
    using T h1 by blast
  have r2: "fst (generate (backend_call down_world 0) \<lparr>backend = Gemini, model_name = ''m''\<rparr>
                  ''p'' 5) = None"
    using T h2 by blast
  have l1: "list_all (\<lambda>a. \<not> usable (example_resp a)) [0..<5]"
    using h1 by (simp add: list_all_iff)
  have l2: "list_all (\<lambda>a. isl (backend_call down_world 0 a ''p'')) [0..<5]"
    using h2 by (simp add: list_all_iff)
  show ?thesis
    using l1 l2 q r1 r2 by (simp add: run)
qed


section \<open>Theorems on the stage orchestrator\<close>

declare batches_loop.simps [simp del]

lemma make_task_result:
  "fst (make_task st w client c chunk author idx) = Raised
   \<or> (\<exists>t. fst (make_task st w client c chunk author idx) = Returned idx t)"
  by (cases st) (simp_all add: process_correction_def process_footnotes_def Let_def)

lemma fst_gather:
  "fst (gather st w client author i batch c)
   = map (\<lambda>j. fst (make_task st w client c (batch ! j) author (i + j))) [0..<length batch]"
  by (simp add: gather_def batch_tasks_def Let_def case_prod_beta)

lemma snd_gather_cache_at:
  "snd (gather st w client author (k * bs) (take bs (drop (k * bs) chunks))
          (cache_at_batch st w client chunks author bs c k))
   = cache_at_batch st w client chunks author bs c (Suc k)"
  by simp

lemma fold_store_result:
  assumes "\<And>j. j < m \<Longrightarrow> f j = Raised \<or> (\<exists>t. f j = Returned (i + j) t)"
  shows "length (fold store_result (map f [0..<m]) results) = length results
       \<and> (\<forall>k < length results. fold store_result (map f [0..<m]) results ! k
            = (if i \<le> k \<and> k < i + m
               then (case f (k - i) of Raised \<Rightarrow> results ! k | Returned idx t \<Rightarrow> Some t)
               else results ! k))"
  using assms
proof (induction m)
  case 0
  then show ?case by auto
next
  case (Suc m)
  let ?prev = "fold store_result (map f [0..<m]) results"
  have IH: "length ?prev = length results"
    "\<And>k. k < length results \<Longrightarrow> ?prev ! k = (if i \<le> k \<and> k < i + m
               then (case f (k - i) of Raised \<Rightarrow> results ! k | Returned idx t \<Rightarrow> Some t)
               else results ! k)"
    using Suc.IH Suc.prems by auto
  have step: "fold store_result (map f [0..<Suc m]) results = store_result (f m) ?prev"
    by simp
  from Suc.prems [of m] consider "f m = Raised" | t where "f m = Returned (i + m) t"
    by auto
  then show ?case
  proof cases
    case 1
    have "\<And>k. k = i + m \<Longrightarrow> k - i = m" by simp
    then show ?thesis
      unfolding step using 1 IH
      by (auto simp: less_Suc_eq)
  next
    case 2
    show ?thesis
      unfolding step using 2 IH
      by (auto simp: less_Suc_eq nth_list_update)
  qed
qed


lemma run_batch_props:
  assumes bs: "0 < bs" and len: "length (fst s) = length chunks" and i: "i < length chunks"
  shows "length (fst (run_batch st w client chunks author bs i s)) = length chunks"
    and "\<And>j. j < length chunks \<Longrightarrow>
           fst (run_batch st w client chunks author bs i s) ! j
           = (if i \<le> j \<and> j < i + bs
              then (case fst (make_task st w client (snd s) (chunks ! j) author j) of
                      Raised \<Rightarrow> fst s ! j | Returned idx t \<Rightarrow> Some t)
              else fst s ! j)"
    and "snd (run_batch st w client chunks author bs i s)
         = snd (gather st w client author i (take bs (drop i chunks)) (snd s))"
proof -
  let ?batch = "take bs (drop i chunks)"
  let ?f = "\<lambda>j. fst (make_task st w client (snd s) (?batch ! j) author (i + j))"
  let ?m = "length ?batch"
  have fst_run: "fst (run_batch st w client chunks author bs i s)
                 = fold store_result (map ?f [0..<?m]) (fst s)"
    by (simp add: run_batch_def Let_def fst_gather)
  have f_ok: "\<And>j. j < ?m \<Longrightarrow> ?f j = Raised \<or> (\<exists>t. ?f j = Returned (i + j) t)"
    using make_task_result by blast
  note F = fold_store_result [of ?m ?f i "fst s", OF f_ok]
  show "length (fst (run_batch st w client chunks author bs i s)) = length chunks"
    using F len by (simp add: fst_run)
  show "snd (run_batch st w client chunks author bs i s)
         = snd (gather st w client author i (take bs (drop i chunks)) (snd s))"
    by (simp add: run_batch_def Let_def)
  fix j assume j: "j < length chunks"
  have m: "?m = min bs (length chunks - i)" by simp
  have range: "(i \<le> j \<and> j < i + ?m) = (i \<le> j \<and> j < i + bs)"
    using j i by (auto simp: m)
  have F2: "fold store_result (map ?f [0..<?m]) (fst s) ! j
        = (if i \<le> j \<and> j < i + ?m
           then (case ?f (j - i) of Raised \<Rightarrow> fst s ! j | Returned idx t \<Rightarrow> Some t)
           else fst s ! j)"
    using F j len by simp
  show "fst (run_batch st w client chunks author bs i s) ! j
           = (if i \<le> j \<and> j < i + bs
              then (case fst (make_task st w client (snd s) (chunks ! j) author j) of
                      Raised \<Rightarrow> fst s ! j | Returned idx t \<Rightarrow> Some t)
              else fst s ! j)"
  proof (cases "i \<le> j \<and> j < i + bs")
    case True
    then have "j - i < ?m" using j unfolding m by arith
    then have "?batch ! (j - i) = chunks ! j"
      using True j i by (simp add: nth_drop)
    then have "?f (j - i) = fst (make_task st w client (snd s) (chunks ! j) author j)"
      using True by simp
    moreover have "fold store_result (map ?f [0..<?m]) (fst s) ! j
        = (case ?f (j - i) of Raised \<Rightarrow> fst s ! j | Returned idx t \<Rightarrow> Some t)"
      unfolding F2 range using True by simp
    ultimately show ?thesis
      unfolding fst_run using True by simp
  next
    case False
    have "fold store_result (map ?f [0..<?m]) (fst s) ! j = fst s ! j"
      unfolding F2 range using False by auto
    then show ?thesis
      unfolding fst_run using False by auto
  qed
qed

lemma batches_loop_inv:
  assumes "0 < bs" and "length (fst s) = length chunks" and "i = k * bs"
    and "snd s = cache_at_batch st w client chunks author bs c0 k"
  shows "length (fst (batches_loop st w client chunks author bs i s)) = length chunks
       \<and> (\<forall>j < length chunks.
            fst (batches_loop st w client chunks author bs i s) ! j
            = (if i \<le> j
               then (case fst (make_task st w client
                                 (cache_at_batch st w client chunks author bs c0 (j div bs))
                                 (chunks ! j) author j) of
                       Raised \<Rightarrow> fst s ! j | Returned idx t \<Rightarrow> Some t)
               else fst s ! j))"
  using assms
proof (induction st w client chunks author bs i s arbitrary: k rule: batches_loop.induct)
  case (1 st w client chunks author bs i s)
  show ?case
  proof (cases "i < length chunks")
    case False
    then have "batches_loop st w client chunks author bs i s = s"
      by (simp add: batches_loop.simps)
    then show ?thesis
      using False "1.prems" by simp
  next
    case True
    let ?s1 = "run_batch st w client chunks author bs i s"
    have unfold: "batches_loop st w client chunks author bs i s
                  = batches_loop st w client chunks author bs (i + bs) ?s1"
      using True "1.prems"(1) by (subst batches_loop.simps) simp
    note RB = run_batch_props [OF "1.prems"(1) "1.prems"(2) True, where st = st and w = w
        and client = client and author = author]
    have c1: "snd ?s1 = cache_at_batch st w client chunks author bs c0 (Suc k)"
      using RB(3) "1.prems"(3,4) by simp
    have i1: "i + bs = Suc k * bs"
      using "1.prems"(3) by simp
    have IH: "length (fst (batches_loop st w client chunks author bs (i + bs) ?s1)) = length chunks
       \<and> (\<forall>j < length chunks.
            fst (batches_loop st w client chunks author bs (i + bs) ?s1) ! j
            = (if i + bs \<le> j
               then (case fst (make_task st w client
                                 (cache_at_batch st w client chunks author bs c0 (j div bs))
                                 (chunks ! j) author j) of
                       Raised \<Rightarrow> fst ?s1 ! j | Returned idx t \<Rightarrow> Some t)
               else fst ?s1 ! j))"
      using "1.IH" [OF _ "1.prems"(1) RB(1) i1 c1] True "1.prems"(1) by simp
    show ?thesis
    proof (intro conjI allI impI)
      show "length (fst (batches_loop st w client chunks author bs i s)) = length chunks"
        using IH unfold by simp
    next
      fix j assume j: "j < length chunks"
      have here: "i \<le> j \<Longrightarrow> j < i + bs \<Longrightarrow> j div bs = k"
        using "1.prems"(1,3) by (intro div_nat_eqI) (simp_all add: mult.commute)
      show "fst (batches_loop st w client chunks author bs i s) ! j
            = (if i \<le> j
               then (case fst (make_task st w client
                                 (cache_at_batch st w client chunks author bs c0 (j div bs))
                                 (chunks ! j) author j) of
                       Raised \<Rightarrow> fst s ! j | Returned idx t \<Rightarrow> Some t)
               else fst s ! j)"
        unfolding unfold using IH j RB(2) [OF j] here "1.prems"(4)
        by (auto split: task_result.splits)
    qed
  qed
qed


lemma fallback_none_replicate:
  "fallback_none (replicate (length chunks) None) chunks = chunks"
proof -
  have "map (\<lambda>i. case replicate (length chunks) (None :: string option) ! i of
                 None \<Rightarrow> chunks ! i | Some text \<Rightarrow> text) [0..<length chunks]
        = map ((!) chunks) [0..<length chunks]"
    by (rule map_cong) simp_all
  then show ?thesis
    by (simp add: fallback_none_def map_nth)
qed

lemma outcome_text_cases:
  "outcome_text (fst (make_task st w client c chunk author idx)) chunk = chunk
   \<or> outcome_text (fst (make_task st w client c chunk author idx)) chunk
       = AI_FAILURE_MARKER @ para_sep @ chunk
   \<or> cache_get (sha256 w) st c chunk
       = Some (outcome_text (fst (make_task st w client c chunk author idx)) chunk)
   \<or> fst (generate (backend_call w idx) client (task_prompt st w chunk author idx) MAX_RETRIES)
       = Some (outcome_text (fst (make_task st w client c chunk author idx)) chunk)"
proof (cases st)
  case Correction
  show ?thesis
    unfolding Correction
    by (cases "get_correction (sha256 w) c chunk";
        cases "fst (generate (backend_call w idx) client
                      (correction_prompt w chunk author (idx = 0)) MAX_RETRIES)")
      (simp_all add: process_correction_def Let_def)
next
  case Footnotes
  show ?thesis
    unfolding Footnotes
    by (cases "get_footnotes (sha256 w) c chunk";
        cases "fst (generate (backend_call w idx) client
                      (footnote_prompt w chunk author) MAX_RETRIES)")
      (simp_all add: process_footnotes_def Let_def)
qed

lemma process_chunks_parallel_nth:
  assumes "0 < batch_size"
  shows "\<exists>outs c'.
           process_chunks_parallel w client chunks author mode batch_size c = Inr (outs, c')
         \<and> length outs = length chunks
         \<and> (\<forall>i < length chunks.
              outs ! i
              = outcome_text
                  (fst (make_task mode w client
                          (cache_at_batch mode w client chunks author (nat batch_size) c
                             (i div nat batch_size))
                          (chunks ! i) author i))
                  (chunks ! i))"
proof -
  let ?bs = "nat batch_size"
  let ?init = "(replicate (length chunks) (None :: string option), c)"
  let ?s = "batches_loop mode w client chunks author ?bs 0 ?init"
  have inv: "length (fst ?s) = length chunks
       \<and> (\<forall>j < length chunks.
            fst ?s ! j
            = (if 0 \<le> j
               then (case fst (make_task mode w client
                                 (cache_at_batch mode w client chunks author ?bs c (j div ?bs))
                                 (chunks ! j) author j) of
                       Raised \<Rightarrow> fst ?init ! j | Returned idx t \<Rightarrow> Some t)
               else fst ?init ! j))"
    using assms by (intro batches_loop_inv [where k = 0]) simp_all
  have run: "process_chunks_parallel w client chunks author mode batch_size c
             = Inr (fallback_none (fst ?s) chunks, snd ?s)"
    using assms by (simp add: process_chunks_parallel_def Let_def)
  have len: "length (fallback_none (fst ?s) chunks) = length chunks"
    using inv by (simp add: fallback_none_def)
  have nth: "fallback_none (fst ?s) chunks ! i
             = outcome_text
                 (fst (make_task mode w client
                         (cache_at_batch mode w client chunks author ?bs c (i div ?bs))
                         (chunks ! i) author i))
                 (chunks ! i)" if "i < length chunks" for i
    using inv that by (simp add: fallback_none_def split: task_result.splits)
  show ?thesis
    using run len nth by simp
qed

text \<open>
  C1. A stage run with a batch size other than 0 returns a list with exactly one output
  per input chunk, and the output at position \<open>i\<close> is the text of the task of the chunk
  at position \<open>i\<close>, run on the cache as it is when the batch of \<open>i\<close> starts: the chunk
  itself (the task raised, or the footnotes fallback), the chunk after the failure
  marker, the cached value of the chunk, or the result of the transform of the chunk.
  This holds for every world, so for every order in which the tasks complete.
\<close>

theorem process_chunks_parallel_order:
  assumes "batch_size \<noteq> 0"
  shows "\<exists>outs c'.
           process_chunks_parallel w client chunks author mode batch_size c = Inr (outs, c')
         \<and> length outs = length chunks
         \<and> (\<forall>i < length chunks.
              outs ! i
              = (if 0 < batch_size
                 then outcome_text
                        (fst (make_task mode w client
                                (cache_at_batch mode w client chunks author (nat batch_size) c
                                   (i div nat batch_size))
                                (chunks ! i) author i))
                        (chunks ! i)
                 else chunks ! i))
         \<and> (\<forall>i < length chunks.
              outs ! i = chunks ! i
              \<or> outs ! i = AI_FAILURE_MARKER @ para_sep @ chunks ! i
              \<or> cache_get (sha256 w) mode
                    (cache_at_batch mode w client chunks author (nat batch_size) c
                       (i div nat batch_size))
                    (chunks ! i) = Some (outs ! i)
              \<or> fst (generate (backend_call w i) client
                         (task_prompt mode w (chunks ! i) author i) MAX_RETRIES)
                  = Some (outs ! i))"
proof (cases "0 < batch_size")
  case False
  then have "batches_loop mode w client chunks author (nat batch_size) 0
               (replicate (length chunks) None, c) = (replicate (length chunks) None, c)"
    by (simp add: batches_loop.simps)
  then show ?thesis
    using assms False
    by (simp add: process_chunks_parallel_def Let_def fallback_none_replicate)
next
  case True
  from process_chunks_parallel_nth [OF True, of w client chunks author mode c]
  obtain outs c' where
    run: "process_chunks_parallel w client chunks author mode batch_size c = Inr (outs, c')"
    and len: "length outs = length chunks"
    and nth: "\<And>i. i < length chunks \<Longrightarrow> outs ! i
              = outcome_text
                  (fst (make_task mode w client
                          (cache_at_batch mode w client chunks author (nat batch_size) c
                             (i div nat batch_size))
                          (chunks ! i) author i))
                  (chunks ! i)"
    by blast
  have cases: "outs ! i = chunks ! i
      \<or> outs ! i = AI_FAILURE_MARKER @ para_sep @ chunks ! i
      \<or> cache_get (sha256 w) mode
            (cache_at_batch mode w client chunks author (nat batch_size) c (i div nat batch_size))
            (chunks ! i) = Some (outs ! i)
      \<or> fst (generate (backend_call w i) client
                 (task_prompt mode w (chunks ! i) author i) MAX_RETRIES)
          = Some (outs ! i)" if "i < length chunks" for i
    unfolding nth [OF that] by (rule outcome_text_cases)
  show ?thesis
    using run len nth cases True by simp
qed

theorem process_chunks_parallel_order_witness:
  "(2::int) \<noteq> 0
   \<and> (\<exists>outs c'.
         process_chunks_parallel example_world \<lparr>backend = Ollama, model_name = ''m''\<rparr>
           [''a'', ''b'', ''c''] ''x'' Correction 2 init_db = Inr (outs, c')
       \<and> length outs = 3
       \<and> outs ! 0 = ''ok:a''
       \<and> outs ! 1 = AI_FAILURE_MARKER @ para_sep @ ''b'')"
proof -
  have h: "(2::int) \<noteq> 0" by simp
  let ?cl = "\<lparr>backend = Ollama, model_name = ''m''\<rparr>"
  let ?chunks = "[''a'', ''b'', ''c'']"
  from process_chunks_parallel_order [OF h, of example_world ?cl ?chunks "''x''" Correction init_db]
  obtain outs c' where
    run: "process_chunks_parallel example_world ?cl ?chunks ''x'' Correction 2 init_db = Inr (outs, c')"
    and len: "length outs = length ?chunks"
    and nth: "\<forall>i < length ?chunks. outs ! i
              = (if 0 < (2::int)
                 then outcome_text
                        (fst (make_task Correction example_world ?cl
                                (cache_at_batch Correction example_world ?cl ?chunks ''x'' (nat 2) init_db
                                   (i div nat 2))
                                (?chunks ! i) ''x'' i))
                        (?chunks ! i)
                 else ?chunks ! i)"
    by blast
  have gen_ok: "\<And>i p. i \<noteq> 1 \<Longrightarrow> fst (generate (backend_call example_world i) ?cl p MAX_RETRIES) = Some (''ok:'' @ p)"
    by (simp add: generate_def MAX_RETRIES_def example_world_def generate_from.simps)
  have gen_fail: "\<And>p. fst (generate (backend_call example_world 1) ?cl p MAX_RETRIES) = None"
    by (simp add: generate_def MAX_RETRIES_def example_world_def generate_from.simps Let_def)
  have o0: "outs ! 0 = ''ok:a''"
    using nth gen_ok [of 0]
    by (simp add: process_correction_def get_correction_def init_db_def Let_def example_world_def)
  have o1: "outs ! 1 = AI_FAILURE_MARKER @ para_sep @ ''b''"
    using nth gen_fail
    by (simp add: process_correction_def get_correction_def init_db_def Let_def example_world_def)
  show ?thesis
    using h run len o0 o1 by simp
qed

section \<open>Theorems on the fallback of a failed transform\<close>

lemma sublist_str_join:
  "i < length xs \<Longrightarrow> sublist (xs ! i) (str_join sep xs)"
proof (induction sep xs arbitrary: i rule: str_join.induct)
  case (1 sep)
  then show ?case by simp
next
  case (2 sep x)
  then show ?case by simp
next
  case (3 sep x y ys)
  show ?case
  proof (cases i)
    case 0
    then show ?thesis by simp
  next
    case (Suc j)
    then have "sublist ((y # ys) ! j) (str_join sep (y # ys))"
      using "3.prems" by (intro "3.IH") simp
    then obtain ps ss where "str_join sep (y # ys) = ps @ (y # ys) ! j @ ss"
      by (auto simp: sublist_def)
    then have "(x @ sep) @ str_join sep (y # ys) = (x @ sep @ ps) @ (y # ys) ! j @ ss"
      by simp
    then have "sublist ((y # ys) ! j) ((x @ sep) @ str_join sep (y # ys))"
      unfolding sublist_def by blast
    then show ?thesis
      using Suc by simp
  qed
qed

lemma generate_down:
  "fst (generate (backend_call down_world i) \<lparr>backend = Ollama, model_name = ''m''\<rparr> p MAX_RETRIES) = None"
  by (simp add: generate_def MAX_RETRIES_def down_world_def generate_from.simps Let_def)

text \<open>
  C3, as stated, fails: in the footnotes stage a chunk whose transform fails at every
  attempt is put out unchanged, without the failure marker.
\<close>

theorem failed_transform_marker_counterexample:
  "fst (generate (backend_call down_world 0) \<lparr>backend = Ollama, model_name = ''m''\<rparr>
          (task_prompt Footnotes down_world ''abc'' ''x'' 0) MAX_RETRIES) = None
   \<and> process_chunks_parallel down_world \<lparr>backend = Ollama, model_name = ''m''\<rparr>
         [''abc''] ''x'' Footnotes 2 init_db = Inr ([''abc''], init_db)
   \<and> \<not> prefix AI_FAILURE_MARKER ''abc''"
proof -
  have run: "process_chunks_parallel down_world \<lparr>backend = Ollama, model_name = ''m''\<rparr>
         [''abc''] ''x'' Footnotes 2 init_db = Inr ([''abc''], init_db)"
    using generate_down [of 0 "''abc''"]
    by (simp add: process_chunks_parallel_def Let_def batches_loop.simps run_batch_def gather_def
      batch_tasks_def completion_writes_def List.map_filter_def apply_puts_def
      process_footnotes_def get_footnotes_def init_db_def fallback_none_def down_world_def)
  show ?thesis
    using run generate_down [of 0] by (simp add: AI_FAILURE_MARKER_def)
qed

text \<open>
  C3, amended. For a chunk whose cache lookup misses and whose transform fails (no
  result, or an empty one, after all retries), the output of the correction stage at the
  chunk's position is the failure marker, a blank line and the chunk, and the output of
  the footnotes stage is the chunk unchanged; in both stages the chunk's text is a
  substring of that output and of the stage's reassembled text.
\<close>

theorem failed_transform_fallback:
  assumes bs: "0 < batch_size" and i: "i < length chunks"
    and get_ok: "\<not> db_get_fails w i"
    and miss: "\<not> truthy (cache_get (sha256 w) mode
                 (cache_at_batch mode w client chunks author (nat batch_size) c
                    (i div nat batch_size)) (chunks ! i))"
    and failed: "\<not> truthy (fst (generate (backend_call w i) client
                   (task_prompt mode w (chunks ! i) author i) MAX_RETRIES))"
  shows "\<exists>outs c'.
           process_chunks_parallel w client chunks author mode batch_size c = Inr (outs, c')
         \<and> outs ! i = (case mode of
                         Correction \<Rightarrow> AI_FAILURE_MARKER @ para_sep @ chunks ! i
                       | Footnotes \<Rightarrow> chunks ! i)
         \<and> sublist (chunks ! i) (outs ! i)
         \<and> sublist (chunks ! i) (str_join para_sep outs)"
proof -
  from process_chunks_parallel_nth [OF bs, of w client chunks author mode c]
  obtain outs c' where
    run: "process_chunks_parallel w client chunks author mode batch_size c = Inr (outs, c')"
    and len: "length outs = length chunks"
    and nth: "outs ! i = outcome_text
                (fst (make_task mode w client
                        (cache_at_batch mode w client chunks author (nat batch_size) c
                           (i div nat batch_size))
                        (chunks ! i) author i))
                (chunks ! i)"
    using i by blast
  have out: "outs ! i = (case mode of
                         Correction \<Rightarrow> AI_FAILURE_MARKER @ para_sep @ chunks ! i
                       | Footnotes \<Rightarrow> chunks ! i)"
    unfolding nth using get_ok miss failed
    by (cases mode) (simp_all add: process_correction_def process_footnotes_def Let_def)
  have "sublist (chunks ! i) ((AI_FAILURE_MARKER @ para_sep) @ chunks ! i)"
    by (rule sublist_append_leftI)
  then have here: "sublist (chunks ! i) (outs ! i)"
    unfolding out by (cases mode) simp_all
  have "sublist (outs ! i) (str_join para_sep outs)"
    using i len by (intro sublist_str_join) simp
  with here have "sublist (chunks ! i) (str_join para_sep outs)"
    by (rule sublist_order.order_trans)
  with run out here show ?thesis by blast
qed


theorem failed_transform_fallback_witness:
  "(0::int) < 2 \<and> (1::nat) < length [''a'', ''b'']
   \<and> \<not> db_get_fails down_world 1
   \<and> \<not> truthy (cache_get (sha256 down_world) Correction
          (cache_at_batch Correction down_world \<lparr>backend = Ollama, model_name = ''m''\<rparr>
             [''a'', ''b''] ''x'' (nat 2) init_db (1 div nat 2)) ([''a'', ''b''] ! 1))
   \<and> \<not> truthy (fst (generate (backend_call down_world 1)
          \<lparr>backend = Ollama, model_name = ''m''\<rparr>
          (task_prompt Correction down_world ([''a'', ''b''] ! 1) ''x'' 1) MAX_RETRIES))
   \<and> (\<exists>outs c'.
         process_chunks_parallel down_world \<lparr>backend = Ollama, model_name = ''m''\<rparr>
           [''a'', ''b''] ''x'' Correction 2 init_db = Inr (outs, c')
       \<and> outs ! 1 = AI_FAILURE_MARKER @ para_sep @ ''b''
       \<and> sublist ''b'' (str_join para_sep outs))"
proof -
  let ?cl = "\<lparr>backend = Ollama, model_name = ''m''\<rparr>"
  have h1: "(0::int) < 2" by simp
  have h2: "(1::nat) < length [''a'', ''b'']" by simp
  have h3: "\<not> db_get_fails down_world 1" by (simp add: down_world_def)
  have h4: "\<not> truthy (cache_get (sha256 down_world) Correction
          (cache_at_batch Correction down_world ?cl
             [''a'', ''b''] ''x'' (nat 2) init_db (1 div nat 2)) ([''a'', ''b''] ! 1))"
    by (simp add: get_correction_def init_db_def)
  have h5: "\<not> truthy (fst (generate (backend_call down_world 1) ?cl
          (task_prompt Correction down_world ([''a'', ''b''] ! 1) ''x'' 1) MAX_RETRIES))"
    using generate_down [of 1] by simp
  from failed_transform_fallback [OF h1 h2 h3 h4 h5]
  have "\<exists>outs c'.
         process_chunks_parallel down_world ?cl [''a'', ''b''] ''x'' Correction 2 init_db
           = Inr (outs, c')
       \<and> outs ! 1 = AI_FAILURE_MARKER @ para_sep @ ''b''
       \<and> sublist ''b'' (str_join para_sep outs)"
    by simp blast
  with h1 h2 h3 h4 h5 show ?thesis
    by blast
qed


section \<open>Theorems on the document reconstruction\<close>

declare split_from.simps [simp del]









section \<open>Theorems on the marker processor\<close>

declare re_sub.simps [simp del] segments.simps [simp del] str_nat.simps [simp del]


lemma re_sub_segments:
  assumes cb: "\<And>m k ns. cb m (k, ns) =
      (if valid m then (''['' @ str_nat k @ '']'', (Suc k, ns @ [mk k m])) else ([], (k, ns)))"
  shows "re_sub matcher cb s (k, ns) =
     (render_from valid k (segments matcher s),
      (k + length (valid_pairs valid (segments matcher s)),
       ns @ number_from mk k (valid_pairs valid (segments matcher s))))"
proof (induction "length s" arbitrary: s k ns rule: less_induct)
  case less
  show ?case
  proof (cases "s = []")
    case True
    then show ?thesis
      by (simp add: re_sub.simps segments.simps valid_pairs_def)
  next
    case False
    consider (hit) m rest where "matcher s = Some (m, rest)" "length rest < length s"
      | (miss) "re_sub matcher cb s (k, ns)
                = (hd s # fst (re_sub matcher cb (tl s) (k, ns)), snd (re_sub matcher cb (tl s) (k, ns)))"
               "segments matcher s = Plain (hd s) # segments matcher (tl s)"
    proof (cases "matcher s")
      case None
      then show ?thesis
        using False miss
        by (simp add: re_sub.simps [of matcher cb s] segments.simps [of matcher s] Let_def)
    next
      case (Some p)
      obtain m rest where p: "p = (m, rest)" by (cases p)
      show ?thesis
      proof (cases "length rest < length s")
        case True
        then show ?thesis using hit Some p by blast
      next
        case short: False
        then show ?thesis
          using False miss Some p
          by (simp add: re_sub.simps [of matcher cb s] segments.simps [of matcher s] Let_def)
      qed
    qed
    then show ?thesis
    proof cases
      case miss
      have IH: "re_sub matcher cb (tl s) (k, ns) =
         (render_from valid k (segments matcher (tl s)),
          (k + length (valid_pairs valid (segments matcher (tl s))),
           ns @ number_from mk k (valid_pairs valid (segments matcher (tl s)))))"
        using False by (intro less.hyps) simp
      show ?thesis
        unfolding miss IH by (simp add: valid_pairs_def)
    next
      case hit
      have segs: "segments matcher s = Pair m # segments matcher rest"
        using hit False by (simp add: segments.simps [of matcher s])
      have run: "re_sub matcher cb s (k, ns)
            = (fst (cb m (k, ns)) @ fst (re_sub matcher cb rest (snd (cb m (k, ns)))),
               snd (re_sub matcher cb rest (snd (cb m (k, ns)))))"
        using hit False by (simp add: re_sub.simps [of matcher cb s] Let_def)
      show ?thesis
      proof (cases "valid m")
        case True
        have IH: "re_sub matcher cb rest (Suc k, ns @ [mk k m]) =
         (render_from valid (Suc k) (segments matcher rest),
          (Suc k + length (valid_pairs valid (segments matcher rest)),
           (ns @ [mk k m]) @ number_from mk (Suc k) (valid_pairs valid (segments matcher rest))))"
          using hit by (intro less.hyps) simp
        show ?thesis
          unfolding run segs using True
          by (simp add: cb IH valid_pairs_def)
      next
        case False
        have IH: "re_sub matcher cb rest (k, ns) =
         (render_from valid k (segments matcher rest),
          (k + length (valid_pairs valid (segments matcher rest)),
           ns @ number_from mk k (valid_pairs valid (segments matcher rest))))"
          using hit by (intro less.hyps) simp
        show ?thesis
          unfolding run segs using False
          by (simp add: cb IH valid_pairs_def)
      qed
    qed
  qed
qed


lemma number_from_nth:
  "number_from mk k ms = map (\<lambda>i. mk (k + i) (ms ! i)) [0..<length ms]"
proof (induction ms arbitrary: k)
  case Nil
  then show ?case by simp
next
  case (Cons m ms)
  have "map (\<lambda>i. mk (k + i) ((m # ms) ! i)) [0..<length (m # ms)]
        = mk k m # map (\<lambda>i. mk (k + Suc i) (ms ! i)) [0..<length ms]"
    by (simp add: upt_conv_Cons map_Suc_upt [symmetric] del: upt_Suc)
  then show ?case
    using Cons.IH [of "Suc k"] by simp
qed

lemma valid_before_Cons:
  "valid_before valid (seg # segs) (Suc j)
   = (if is_valid valid seg then Suc (valid_before valid segs j) else valid_before valid segs j)"
  by (simp add: valid_before_def)

lemma seg_out_Suc:
  "seg_out valid k (seg # segs) (Suc j)
   = seg_out valid (if is_valid valid seg then Suc k else k) segs j"
  by (simp add: seg_out_def valid_before_Cons split: segment.splits)

lemma seg_out_0:
  "seg_out valid k (seg # segs) 0
   = (case seg of Plain c \<Rightarrow> [c]
      | Pair m \<Rightarrow> (if valid m then ''['' @ str_nat k @ '']'' else []))"
  by (simp add: seg_out_def valid_before_def split: segment.splits)

lemma concat_seg_out_Cons:
  "concat (map (seg_out valid k (seg # segs)) [0..<length (seg # segs)])
   = seg_out valid k (seg # segs) 0
     @ concat (map (seg_out valid (if is_valid valid seg then Suc k else k) segs)
                 [0..<length segs])"
proof -
  have "[0..<length (seg # segs)] = 0 # map Suc [0..<length segs]"
    by (simp add: upt_conv_Cons map_Suc_upt del: upt_Suc)
  then show ?thesis
    by (simp add: o_def seg_out_Suc del: upt_Suc)
qed

lemma render_from_nth:
  "render_from valid k segs = concat (map (seg_out valid k segs) [0..<length segs])"
proof (induction valid k segs rule: render_from.induct)
  case (1 valid k)
  then show ?case by simp
next
  case (2 valid k c segs)
  show ?case
    unfolding concat_seg_out_Cons using 2
    by (simp add: seg_out_0)
next
  case (3 valid k m segs)
  show ?case
    unfolding concat_seg_out_Cons using 3
    by (simp add: seg_out_0)
qed

lemma seg_out_segment_text: "seg_out valid (Suc 0) segs = segment_text valid segs"
  by (rule ext) (simp add: seg_out_def segment_text_def split: segment.splits)


lemma replace_generic:
  "replace m (k, ns) =
     (if (\<lambda>m. True) m
      then (''['' @ str_nat k @ '']'',
            (Suc k, ns @ [(\<lambda>k m. \<lparr>number = k, term_of = strip (fst m),
                                      explanation = strip (snd m)\<rparr>) k m]))
      else ([], (k, ns)))"
  by (simp add: replace_def Let_def)

lemma replace_marker_generic:
  "replace_marker_and_collect_note m (k, ns) =
     (if has_content m
      then (''['' @ str_nat k @ '']'',
            (Suc k, ns @ [(\<lambda>k m. str_nat k @ ''. '' @ strip (snd m)) k m]))
      else ([], (k, ns)))"
  by (simp add: replace_marker_and_collect_note_def has_content_def Let_def)

lemma valid_pairs_True: "valid_pairs (\<lambda>m. True) segs = pair_groups segs"
  by (simp add: valid_pairs_def)

text \<open>
  What both marker processors compute, for every text. With the text cut into the
  matches of the pattern and the characters between them, the clean text is the text in
  which the \<open>k\<close>-th numbered pair stands as \<open>[k]\<close>, and the list of notes has one entry
  for each numbered pair, in document order, the \<open>i\<close>-th entry (counted from 0) with the
  number \<open>i + 1\<close>. \<open>run_final_txt_generation\<close> numbers the pairs whose explanation is
  not blank and removes the others; \<open>extract_footnotes\<close> numbers every match.
\<close>

lemma marker_renumbering:
  "fst (run_final_txt_generation text)
     = renumbered_text has_content (segments match_pair text)
   \<and> snd (run_final_txt_generation text)
     = map (\<lambda>i. str_nat (Suc i) @ ''. ''
                 @ strip (snd (valid_pairs has_content (segments match_pair text) ! i)))
         [0..<length (valid_pairs has_content (segments match_pair text))]
   \<and> fst (extract_footnotes text)
     = renumbered_text (\<lambda>m. True) (segments match_nota text)
   \<and> snd (extract_footnotes text)
     = map (\<lambda>i. \<lparr>number = Suc i,
                  term_of = strip (fst (pair_groups (segments match_nota text) ! i)),
                  explanation = strip (snd (pair_groups (segments match_nota text) ! i))\<rparr>)
         [0..<length (pair_groups (segments match_nota text))]
   \<and> map number (snd (extract_footnotes text))
     = [1..<Suc (length (pair_groups (segments match_nota text)))]"
proof -
  have kdp: "re_sub match_pair replace_marker_and_collect_note text (Suc 0, []) =
     (render_from has_content (Suc 0) (segments match_pair text),
      (Suc 0 + length (valid_pairs has_content (segments match_pair text)),
       [] @ number_from (\<lambda>k m. str_nat k @ ''. '' @ strip (snd m)) (Suc 0)
              (valid_pairs has_content (segments match_pair text))))"
    by (rule re_sub_segments) (rule replace_marker_generic)
  have proc: "re_sub match_nota replace text (Suc 0, []) =
     (render_from (\<lambda>m. True) (Suc 0) (segments match_nota text),
      (Suc 0 + length (valid_pairs (\<lambda>m. True) (segments match_nota text)),
       [] @ number_from (\<lambda>k m. \<lparr>number = k, term_of = strip (fst m),
                                   explanation = strip (snd m)\<rparr>) (Suc 0)
              (valid_pairs (\<lambda>m. True) (segments match_nota text))))"
    by (rule re_sub_segments) (rule replace_generic)
  have ns_eq: "snd (extract_footnotes text)
     = map (\<lambda>i. \<lparr>number = Suc i,
                  term_of = strip (fst (pair_groups (segments match_nota text) ! i)),
                  explanation = strip (snd (pair_groups (segments match_nota text) ! i))\<rparr>)
         [0..<length (pair_groups (segments match_nota text))]"
    by (simp add: extract_footnotes_def Let_def proc number_from_nth valid_pairs_True)
  have numbers: "map number (snd (extract_footnotes text))
     = [1..<Suc (length (pair_groups (segments match_nota text)))]"
    unfolding ns_eq by (simp add: o_def map_Suc_upt del: upt_Suc)
  show ?thesis
    using ns_eq numbers
    by (simp add: run_final_txt_generation_def extract_footnotes_def Let_def kdp proc
        number_from_nth render_from_nth renumbered_text_def seg_out_segment_text)
qed

lemma blank_pair_removed:
  assumes "match_pair s = Some (m, rest)" and "length rest < length s"
    and "strip (snd m) = []"
  shows "re_sub match_pair replace_marker_and_collect_note s st
         = re_sub match_pair replace_marker_and_collect_note rest st"
  using assms
  by (subst re_sub.simps)
    (auto simp: replace_marker_and_collect_note_def Let_def)

lemma digit_one: "char_of (49::nat) = CHR ''1''"
  by code_simp

lemma digit_two: "char_of (50::nat) = CHR ''2''"
  by code_simp

text \<open>
  C4. A valid pair is one whose explanation is not blank. \<open>run_final_txt_generation\<close>
  numbers exactly the valid pairs (\<open>marker_renumbering\<close>). \<open>extract_footnotes\<close> does not:
  in the text below the first marker has a blank explanation, so there is one valid
  pair, yet the list of notes has two entries and the valid pair stands as \<open>[2]\<close> in the
  clean text. The same text in the KDP protocol gives one note and \<open>[1]\<close>.
\<close>

theorem extract_footnotes_counts_blank_pair:
  "extract_footnotes ''x[NOTA:a| ]y[NOTA:b|c]z''
     = (''x[1]y[2]z'', [\<lparr>number = 1, term_of = ''a'', explanation = []\<rparr>,
                        \<lparr>number = 2, term_of = ''b'', explanation = ''c''\<rparr>])
   \<and> valid_pairs has_content (segments match_nota ''x[NOTA:a| ]y[NOTA:b|c]z'') = [(''b'', ''c'')]
   \<and> run_final_txt_generation
         ''x[NOTA_NOME:a][CONTEUDO_NOTA: ]y[NOTA_NOME:b][CONTEUDO_NOTA:c]z''
       = (''xy[1]z'', [''1. c''])"
  by (simp add: extract_footnotes_def run_final_txt_generation_def re_sub.simps segments.simps
      match_nota_def match_pair_def after_kind_def note_kinds_def iprefix_def upper_ascii_def
      replace_def replace_marker_and_collect_note_def strip_def lstrip_def rstrip_def
      is_space_def str_nat.simps Let_def digit_one digit_two valid_pairs_def has_content_def)

text \<open>
  C6. A pair with a blank explanation. In \<open>run_final_txt_generation\<close> such a pair is
  removed and neither the counter nor the notes change (\<open>blank_pair_removed\<close>, and the
  third run below). \<open>extract_footnotes\<close> has no such test: a marker whose explanation is
  one space is replaced by \<open>[1]\<close> and yields a footnote with the empty explanation, and a
  marker whose explanation is empty does not match the pattern and stays in the text.
\<close>

theorem extract_footnotes_blank_explanation:
  "extract_footnotes ''x[NOTA:a| ]y''
     = (''x[1]y'', [\<lparr>number = 1, term_of = ''a'', explanation = []\<rparr>])
   \<and> extract_footnotes ''x[NOTA:a|]y'' = (''x[NOTA:a|]y'', [])
   \<and> run_final_txt_generation ''x[NOTA_NOME:a][CONTEUDO_NOTA: ]y'' = (''xy'', [])"
  by (simp add: extract_footnotes_def run_final_txt_generation_def re_sub.simps match_nota_def
      match_pair_def after_kind_def note_kinds_def iprefix_def upper_ascii_def
      replace_def replace_marker_and_collect_note_def strip_def lstrip_def rstrip_def
      is_space_def str_nat.simps Let_def digit_one)

section \<open>Theorems on the chunker\<close>

declare split_sentences_from.simps [simp del]

lemma visible_append: "visible (a @ b) = visible a @ visible b"
  by (simp add: visible_def)

lemma visible_Nil: "visible [] = []"
  by (simp add: visible_def)

lemma visible_spaces: "\<forall>c\<in>set s. is_space c \<Longrightarrow> visible s = []"
  by (induction s) (simp_all add: visible_def)

lemma visible_para_sep: "visible para_sep = []"
  by (simp add: visible_def para_sep_def is_space_def)

lemma visible_newline: "visible newline = []"
  by (simp add: visible_def newline_def is_space_def)

lemma visible_blank: "visible (CHR '' '' # s) = visible s"
  by (simp add: visible_def is_space_def)

lemma visible_dropWhile: "visible (dropWhile is_space s) = visible s"
  by (induction s) (simp_all add: visible_def)

lemma visible_rev: "visible (rev s) = rev (visible s)"
  by (simp add: visible_def rev_filter)

lemma visible_strip: "visible (strip s) = visible s"
  by (simp add: strip_def rstrip_def lstrip_def visible_rev visible_dropWhile)

lemma visible_blank_text: "strip s = [] \<Longrightarrow> visible s = []"
  using visible_strip [of s] by (simp add: visible_Nil)

lemma visible_split_from:
  assumes "\<forall>c\<in>set sep. is_space c"
  shows "visible (concat (split_from sep cur s)) = visible cur @ visible s"
  using assms
proof (induction sep cur s rule: split_from.induct)
  case (1 sep cur s)
  show ?case
  proof (cases "s = []")
    case True
    then show ?thesis by (subst split_from.simps) (simp add: visible_Nil)
  next
    case ne: False
    show ?thesis
    proof (cases "sep \<noteq> [] \<and> take (length sep) s = sep")
      case True
      have "s = sep @ drop (length sep) s"
        using True append_take_drop_id [of "length sep" s] by simp
      then have "visible s = visible sep @ visible (drop (length sep) s)"
        using visible_append [of sep "drop (length sep) s"] by simp
      moreover have "visible sep = []"
        using "1.prems" by (rule visible_spaces)
      ultimately have vs: "visible s = visible (drop (length sep) s)" by simp
      have "visible (concat (split_from sep [] (drop (length sep) s)))
            = visible [] @ visible (drop (length sep) s)"
        using "1.IH"(1) [OF ne True "1.prems"] .
      then show ?thesis
        using ne True vs by (subst split_from.simps) (simp add: visible_append visible_Nil)
    next
      case False
      have "visible (concat (split_from sep (cur @ [hd s]) (tl s)))
            = visible (cur @ [hd s]) @ visible (tl s)"
        using "1.IH"(2) [OF ne False "1.prems"] .
      moreover have "visible (cur @ [hd s]) @ visible (tl s) = visible cur @ visible s"
        using ne by (cases s) (simp_all add: visible_def)
      ultimately show ?thesis
        using ne False by (subst split_from.simps) auto
    qed
  qed
qed

lemma visible_str_split_para: "visible (concat (str_split para_sep s)) = visible s"
  using visible_split_from [of para_sep "[]" s]
  by (simp add: str_split_def visible_Nil para_sep_def is_space_def)

lemma visible_str_split_newline: "visible (concat (str_split newline s)) = visible s"
  using visible_split_from [of newline "[]" s]
  by (simp add: str_split_def visible_Nil newline_def is_space_def)

lemma visible_split_sentences_from:
  "visible (concat (split_sentences_from cur s)) = visible cur @ visible s"
proof (induction cur s rule: split_sentences_from.induct)
  case (1 cur s)
  show ?case
  proof (cases "s = []")
    case True
    then show ?thesis by (subst split_sentences_from.simps) (simp add: visible_Nil)
  next
    case ne: False
    then obtain c rest where s: "s = c # rest" by (cases s) auto
    show ?thesis
    proof (cases "sentence_end (hd s) \<and> tl s \<noteq> [] \<and> is_space (hd (tl s))")
      case True
      have "visible (concat (split_sentences_from [] (dropWhile is_space (tl s))))
            = visible [] @ visible (dropWhile is_space (tl s))"
        using "1.IH"(1) [OF ne True] .
      then show ?thesis
        using ne True s
        by (subst split_sentences_from.simps)
          (simp add: visible_append visible_Nil visible_dropWhile, simp add: visible_def)
    next
      case False
      have "visible (concat (split_sentences_from (cur @ [hd s]) (tl s)))
            = visible (cur @ [hd s]) @ visible (tl s)"
        using "1.IH"(2) [OF ne False] .
      moreover have "visible (cur @ [hd s]) @ visible (tl s) = visible cur @ visible s"
        using s by (simp add: visible_def)
      ultimately show ?thesis
        using ne False by (subst split_sentences_from.simps) auto
    qed
  qed
qed

lemma visible_re_split_sentences: "visible (concat (re_split_sentences s)) = visible s"
  by (simp add: re_split_sentences_def visible_split_sentences_from visible_Nil)

lemma visible_flush:
  "visible (concat (flush st)) = visible (concat (fst st)) @ visible (fst (snd st))"
  by (cases st) (simp add: visible_append visible_Nil)

lemma visible_sentence_step:
  "visible (concat (flush (sentence_step m sent st))) = visible (concat (flush st)) @ visible sent"
  by (cases st)
    (simp add: Let_def visible_append visible_Nil visible_blank)

lemma visible_fold_sentence_step:
  "visible (concat (flush (fold (sentence_step m) sents st)))
   = visible (concat (flush st)) @ visible (concat sents)"
  by (induction sents arbitrary: st) (simp_all add: visible_Nil visible_sentence_step visible_append)


lemma visible_paragraph_step:
  "visible (concat (flush (paragraph_step m para st))) = visible (concat (flush st)) @ visible para"
proof (cases st)
  case (fields chunks current current_tokens)
  let ?chunks1 = "if current \<noteq> [] then chunks @ [current] else chunks"
  have sub: "visible (concat (flush (fold (sentence_step m) (re_split_sentences (strip para))
               (?chunks1, [], 0))))
             = visible (concat chunks) @ visible current @ visible para"
    by (simp add: visible_fold_sentence_step visible_re_split_sentences visible_strip
        visible_append visible_Nil)
  show ?thesis
  proof (cases "strip para = []")
    case True
    then show ?thesis
      using fields by (simp add: visible_blank_text visible_append visible_Nil)
  next
    case False
    then show ?thesis
      using fields sub visible_strip [of para]
      by (auto simp: Let_def visible_append visible_Nil visible_para_sep visible_flush
          split: prod.splits)
  qed
qed

lemma visible_fold_paragraph_step:
  "visible (concat (flush (fold (paragraph_step m) paras st)))
   = visible (concat (flush st)) @ visible (concat paras)"
  by (induction paras arbitrary: st)
    (simp_all add: visible_Nil visible_paragraph_step visible_append)

lemma visible_merge_step:
  "visible (concat (flush (merge_step m chunk st))) = visible (concat (flush st)) @ visible chunk"
  by (cases st) (simp add: Let_def visible_append visible_Nil visible_para_sep)

lemma visible_fold_merge_step:
  "visible (concat (flush (fold (merge_step m) cs st)))
   = visible (concat (flush st)) @ visible (concat cs)"
  by (induction cs arbitrary: st) (simp_all add: visible_Nil visible_merge_step visible_append)

lemma create_chunks_visible: "visible (concat (create_chunks s m)) = visible s"
proof (cases "s = [] \<or> strip s = []")
  case True
  then have "visible s = []"
    using visible_blank_text [of s] by (auto simp: visible_Nil)
  then show ?thesis
    using True by (simp add: create_chunks_def visible_Nil)
next
  case False
  then show ?thesis
    by (simp add: create_chunks_def Let_def visible_fold_merge_step visible_fold_paragraph_step
        visible_str_split_para visible_Nil)
qed


lemma strip_Nil: "strip [] = []"
  by (simp add: strip_def rstrip_def lstrip_def)

lemma kdp_sentence_step_visible:
  "visible (concat (fst (kdp_sentence_step m sent st)))
     @ visible (fst (snd (kdp_sentence_step m sent st)))
   = visible (concat (fst st)) @ visible (fst (snd st)) @ visible sent"
proof (cases st)
  case (fields chunks sub sub_tokens added)
  show ?thesis
  proof (cases "strip sent = []")
    case True
    then show ?thesis
      using fields by (simp add: visible_blank_text)
  next
    case False
    then show ?thesis
      using fields by (simp add: Let_def visible_append visible_Nil visible_newline)
  qed
qed

lemma kdp_sentence_step_idle:
  assumes "fst (snd (kdp_sentence_step m sent st)) = []"
    and "snd (snd (snd (kdp_sentence_step m sent st))) = 0"
  shows "fst (snd st) = [] \<and> snd (snd (snd st)) = 0 \<and> visible sent = []"
proof (cases st)
  case (fields chunks sub sub_tokens added)
  show ?thesis
  proof (cases "strip sent = []")
    case True
    then show ?thesis
      using fields assms by (simp add: visible_blank_text)
  next
    case False
    then have "sent \<noteq> []"
      using strip_Nil by auto
    then show ?thesis
      using fields assms False by (simp add: Let_def split: if_splits)
  qed
qed

lemma kdp_fold_sentence_step_visible:
  "visible (concat (fst (fold (kdp_sentence_step m) sents st)))
     @ visible (fst (snd (fold (kdp_sentence_step m) sents st)))
   = visible (concat (fst st)) @ visible (fst (snd st)) @ visible (concat sents)"
  by (induction sents arbitrary: st)
    (simp_all add: visible_Nil kdp_sentence_step_visible visible_append)

lemma kdp_fold_sentence_step_idle:
  assumes "fst (snd (fold (kdp_sentence_step m) sents st)) = []"
    and "snd (snd (snd (fold (kdp_sentence_step m) sents st))) = 0"
  shows "fst (snd st) = [] \<and> snd (snd (snd st)) = 0 \<and> visible (concat sents) = []"
  using assms
proof (induction sents arbitrary: st)
  case Nil
  then show ?case by (simp add: visible_Nil)
next
  case (Cons sent sents)
  have step: "fst (snd (kdp_sentence_step m sent st)) = []
      \<and> snd (snd (snd (kdp_sentence_step m sent st))) = 0 \<and> visible (concat sents) = []"
    using Cons.IH [of "kdp_sentence_step m sent st"] Cons.prems by simp
  then have "fst (snd st) = [] \<and> snd (snd (snd st)) = 0 \<and> visible sent = []"
    using kdp_sentence_step_idle [of m sent st] by simp
  then show ?case
    using step by (simp add: visible_append)
qed

lemma subdivide_visible:
  "visible (concat (subdivide m p chunks)) = visible (concat chunks) @ visible p"
proof -
  define sentences where
    "sentences = (if length (re_split_sentences p) \<le> 1 then str_split newline p
                  else re_split_sentences p)"
  define out where "out = fold (kdp_sentence_step m) sentences (chunks, [], 0, 0)"
  have vs: "visible (concat sentences) = visible p"
    by (simp add: sentences_def visible_re_split_sentences visible_str_split_newline)
  have content: "visible (concat (fst out)) @ visible (fst (snd out))
                 = visible (concat chunks) @ visible p"
    using kdp_fold_sentence_step_visible [of m sentences "(chunks, [], 0, 0)"] vs
    by (simp add: out_def visible_Nil)
  have idle: "fst (snd out) = [] \<Longrightarrow> snd (snd (snd out)) = 0 \<Longrightarrow> visible p = []"
    using kdp_fold_sentence_step_idle [of m sentences "(chunks, [], 0, 0)"] vs
    by (simp add: out_def)
  obtain chunks1 sub sub_tokens added where o: "out = (chunks1, sub, sub_tokens, added)"
    by (cases out) auto
  have "subdivide m p chunks =
        (let chunks2 = (if sub \<noteq> [] then chunks1 @ [sub] else chunks1);
             added2 = (if sub \<noteq> [] then added + 1 else added)
         in if added2 = 0 then chunks2 @ [p] else chunks2)"
    using o by (simp add: subdivide_def Let_def out_def sentences_def)
  then show ?thesis
    using content idle o by (auto simp: Let_def visible_append visible_Nil)
qed

lemma kdp_paragraph_step_visible:
  "visible (concat (flush (kdp_paragraph_step m para st)))
   = visible (concat (flush st)) @ visible para"
proof (cases st)
  case (fields chunks current current_tokens)
  show ?thesis
  proof (cases "strip para = []")
    case True
    have "chunks \<noteq> [] \<Longrightarrow>
          visible (concat (butlast chunks @ [last chunks @ para_sep])) = visible (concat chunks)"
    proof -
      assume "chunks \<noteq> []"
      then have "concat chunks = concat (butlast chunks) @ last chunks"
        using append_butlast_last_id [of chunks] concat_append [of "butlast chunks" "[last chunks]"]
        by simp
      then show ?thesis
        by (simp add: visible_append visible_para_sep)
    qed
    then show ?thesis
      using fields True by (auto simp: visible_blank_text visible_append visible_Nil)
  next
    case False
    then show ?thesis
      using fields
      by (simp add: Let_def visible_append visible_Nil visible_para_sep subdivide_visible)
  qed
qed

lemma kdp_fold_paragraph_step_visible:
  "visible (concat (flush (fold (kdp_paragraph_step m) paras st)))
   = visible (concat (flush st)) @ visible (concat paras)"
  by (induction paras arbitrary: st)
    (simp_all add: visible_Nil kdp_paragraph_step_visible visible_append)

lemma kdp_merge_step_visible:
  "visible (concat (flush (kdp_merge_step m chunk st)))
   = visible (concat (flush st)) @ visible chunk"
  by (cases st) (simp add: Let_def visible_append visible_Nil visible_para_sep)

lemma kdp_fold_merge_step_visible:
  "visible (concat (flush (fold (kdp_merge_step m) cs st)))
   = visible (concat (flush st)) @ visible (concat cs)"
  by (induction cs arbitrary: st)
    (simp_all add: visible_Nil kdp_merge_step_visible visible_append)

lemma kdp_create_chunks_visible: "visible (concat (kdp_create_chunks s m)) = visible s"
  by (simp add: kdp_create_chunks_def Let_def kdp_fold_merge_step_visible
      kdp_fold_paragraph_step_visible visible_str_split_para visible_Nil)

text \<open>
  C2 as stated does not hold. \<open>create_chunks\<close> of processor.py strips every paragraph:
  the text \<open>" a"\<close> gives the single chunk \<open>"a"\<close>, with no separator re-inserted, and the
  leading space is lost. \<open>create_chunks\<close> of correcaoKDP.py skips blank paragraphs: the
  text \<open>" "\<close> gives no chunk at all.
\<close>

theorem chunk_coverage_counterexample:
  "create_chunks '' a'' 1 = [''a''] \<and> kdp_create_chunks '' '' 1 = []"
  by (simp add: create_chunks_def kdp_create_chunks_def str_split_def split_from.simps
      para_sep_def strip_def rstrip_def lstrip_def is_space_def count_tokens_def
      count_tokens_approx_def Let_def)

text \<open>
  In particular the chunks of both chunkers, concatenated in order, have exactly the
  characters of the text that are not whitespace, in the same order.
\<close>

lemma chunks_visible:
  "visible (concat (create_chunks s max_tokens)) = visible s
   \<and> visible (concat (kdp_create_chunks s max_tokens)) = visible s"
  by (simp add: create_chunks_visible kdp_create_chunks_visible)

lemma count_tokens_Nil: "count_tokens [] = 0"
  by (simp add: count_tokens_def)

lemma count_tokens_join_blank:
  "count_tokens (a @ CHR '' '' # b) \<le> count_tokens a + count_tokens b + 1"
  by (simp add: count_tokens_def) linarith

lemma count_tokens_join_para:
  "count_tokens (a @ para_sep @ b) \<le> count_tokens a + count_tokens b + 2"
  by (simp add: count_tokens_def para_sep_def) linarith

lemma within_limit_mono: "S \<subseteq> T \<Longrightarrow> within_limit m S c \<Longrightarrow> within_limit m T c"
  by (auto simp: within_limit_def)

lemma bounded_state_mono: "S \<subseteq> T \<Longrightarrow> bounded_state m S st \<Longrightarrow> bounded_state m T st"
  by (auto simp: bounded_state_def list_all_iff intro: within_limit_mono)

lemma sentence_step_bounded:
  assumes "bounded_state m S st" and "sent \<in> S"
  shows "bounded_state m S (sentence_step m sent st)"
proof (cases st)
  case (fields chunks sub sub_tokens)
  have t: "sub_tokens = count_tokens sub"
    using assms(1) fields by (simp add: bounded_state_def)
  have sub: "sub \<noteq> [] \<Longrightarrow> within_limit m S sub"
    using assms(1) fields by (simp add: bounded_state_def)
  have chunks: "list_all (within_limit m S) chunks"
    using assms(1) fields by (simp add: bounded_state_def)
  show ?thesis
  proof (cases "sub_tokens + count_tokens sent + 1 \<le> m")
    case True
    have "count_tokens (sub @ (if sub \<noteq> [] then '' '' else []) @ sent) \<le> m"
      using True t count_tokens_join_blank [of sub sent] by (auto simp: count_tokens_Nil)
    then show ?thesis
      using fields True chunks by (simp add: bounded_state_def Let_def within_limit_def)
  next
    case False
    then show ?thesis
      using fields chunks sub assms(2)
      by (auto simp: bounded_state_def Let_def within_limit_def count_tokens_Nil)
  qed
qed

lemma fold_sentence_step_bounded:
  "bounded_state m S st \<Longrightarrow> set sents \<subseteq> S
   \<Longrightarrow> bounded_state m S (fold (sentence_step m) sents st)"
  by (induction sents arbitrary: st) (simp_all add: sentence_step_bounded)

lemma paragraph_step_bounded:
  assumes "bounded_state m S st" and "set (re_split_sentences (strip para)) \<subseteq> S"
  shows "bounded_state m S (paragraph_step m para st)"
proof (cases st)
  case (fields chunks current current_tokens)
  have t: "current_tokens = count_tokens current"
    using assms(1) fields by (simp add: bounded_state_def)
  have cur: "current \<noteq> [] \<Longrightarrow> within_limit m S current"
    using assms(1) fields by (simp add: bounded_state_def)
  have chunks: "list_all (within_limit m S) chunks"
    using assms(1) fields by (simp add: bounded_state_def)
  let ?chunks1 = "if current \<noteq> [] then chunks @ [current] else chunks"
  have "bounded_state m S (?chunks1, [], 0)"
    using chunks cur by (simp add: bounded_state_def count_tokens_Nil)
  then have sub: "bounded_state m S
      (fold (sentence_step m) (re_split_sentences (strip para)) (?chunks1, [], 0))"
    using assms(2) by (rule fold_sentence_step_bounded)
  show ?thesis
  proof (cases "strip para = []")
    case True
    then show ?thesis
      using fields assms(1) by simp
  next
    case ne: False
    show ?thesis
    proof (cases "current_tokens + count_tokens (strip para) + 2 \<le> m")
      case True
      have "count_tokens (current @ (if current \<noteq> [] then para_sep else []) @ strip para) \<le> m"
        using True t count_tokens_join_para [of current "strip para"]
        by (auto simp: count_tokens_Nil)
      then show ?thesis
        using fields True ne chunks by (simp add: bounded_state_def Let_def within_limit_def)
    next
      case False
      show ?thesis
      proof (cases "count_tokens (strip para) > m")
        case True
        obtain chunks2 sub2 t2 where
          o: "fold (sentence_step m) (re_split_sentences (strip para)) (?chunks1, [], 0)
              = (chunks2, sub2, t2)"
          by (cases "fold (sentence_step m) (re_split_sentences (strip para)) (?chunks1, [], 0)")
        have "bounded_state m S (chunks2, sub2, t2)"
          using sub o by simp
        then have "bounded_state m S (chunks2, (if sub2 \<noteq> [] then sub2 else []),
                     (if sub2 \<noteq> [] then t2 else 0))"
          by (auto simp: bounded_state_def count_tokens_Nil)
        then show ?thesis
          using fields ne False True o by (simp add: Let_def)
      next
        case le: False
        then show ?thesis
          using fields ne False chunks cur
          by (auto simp: bounded_state_def Let_def within_limit_def)
      qed
    qed
  qed
qed

lemma fold_paragraph_step_bounded:
  "bounded_state m S st \<Longrightarrow> \<forall>para\<in>set paras. set (re_split_sentences (strip para)) \<subseteq> S
   \<Longrightarrow> bounded_state m S (fold (paragraph_step m) paras st)"
  by (induction paras arbitrary: st) (simp_all add: paragraph_step_bounded)

lemma merge_step_bounded:
  assumes "bounded_state m S st" and "within_limit m S chunk"
  shows "bounded_state m S (merge_step m chunk st)"
proof (cases st)
  case (fields merged temp temp_tokens)
  have t: "temp_tokens = count_tokens temp"
    using assms(1) fields by (simp add: bounded_state_def)
  show ?thesis
  proof (cases "temp_tokens + count_tokens chunk + 2 \<le> m")
    case True
    have "count_tokens (temp @ (if temp \<noteq> [] then para_sep else []) @ chunk) \<le> m"
      using True t count_tokens_join_para [of temp chunk] by (auto simp: count_tokens_Nil)
    then show ?thesis
      using fields True assms(1) by (simp add: bounded_state_def Let_def within_limit_def)
  next
    case False
    then show ?thesis
      using fields assms by (auto simp: bounded_state_def Let_def)
  qed
qed

lemma fold_merge_step_bounded:
  "bounded_state m S st \<Longrightarrow> list_all (within_limit m S) cs
   \<Longrightarrow> bounded_state m S (fold (merge_step m) cs st)"
  by (induction cs arbitrary: st) (simp_all add: merge_step_bounded)

lemma flush_bounded: "bounded_state m S st \<Longrightarrow> list_all (within_limit m S) (flush st)"
  by (cases st) (auto simp: bounded_state_def)

lemma create_chunks_bounded:
  "list_all
     (within_limit m (\<Union>para\<in>set (str_split para_sep s). set (re_split_sentences (strip para))))
     (create_chunks s m)"
proof -
  let ?S = "\<Union>para\<in>set (str_split para_sep s). set (re_split_sentences (strip para))"
  have init: "bounded_state m ?S ([], [], 0)"
    by (simp add: bounded_state_def count_tokens_Nil)
  have "bounded_state m ?S (fold (paragraph_step m) (str_split para_sep s) ([], [], 0))"
    using init by (rule fold_paragraph_step_bounded) auto
  then have "list_all (within_limit m ?S)
      (flush (fold (paragraph_step m) (str_split para_sep s) ([], [], 0)))"
    by (rule flush_bounded)
  then have "bounded_state m ?S (fold (merge_step m)
      (flush (fold (paragraph_step m) (str_split para_sep s) ([], [], 0))) ([], [], 0))"
    using init fold_merge_step_bounded by blast
  then have "list_all (within_limit m ?S) (flush (fold (merge_step m)
      (flush (fold (paragraph_step m) (str_split para_sep s) ([], [], 0))) ([], [], 0)))"
    by (rule flush_bounded)
  then show ?thesis
    by (simp add: create_chunks_def Let_def)
qed

text \<open>
  C5. In processor.py every chunk is within the limit or is a sentence saved alone
  (\<open>create_chunks_bounded\<close>, for the estimate of four characters to a token): a
  separator is charged one or two tokens before pieces are joined. In correcaoKDP.py the
  separator is charged \<open>count_tokens_approx("\n\n")\<close>, which is 0: with the limit 1 the
  paragraphs \<open>"abcde"\<close> (1 token) and \<open>"fg"\<close> (0 tokens) are joined into one chunk of 3
  tokens. No paragraph is over the limit, so nothing is subdivided or saved alone.
\<close>

theorem kdp_chunk_over_limit:
  "kdp_create_chunks (''abcde'' @ para_sep @ ''fg'') 1 = [''abcde'' @ para_sep @ ''fg'']
   \<and> count_tokens_approx (''abcde'' @ para_sep @ ''fg'') = 3
   \<and> count_tokens_approx ''abcde'' = 1
   \<and> count_tokens_approx ''fg'' = 0
   \<and> count_tokens_approx para_sep = 0"
  by (simp add: kdp_create_chunks_def str_split_def split_from.simps
      para_sep_def strip_def rstrip_def lstrip_def is_space_def
      count_tokens_approx_def Let_def)

section \<open>The chunks and the pieces of the text\<close>

inductive_cases spaced_NilE: "spaced [] s"
inductive_cases spaced_ConsE: "spaced (p # ps) s"
inductive_cases chunked_NilE: "chunked ps []"
inductive_cases chunked_ConsE: "chunked ps (c # cs)"

lemma blank_Nil: "blank []"
  by (simp add: blank_def)

lemma blank_append: "blank (a @ b) \<longleftrightarrow> blank a \<and> blank b"
  by (simp add: blank_def)

lemma blank_para_sep: "blank para_sep"
  by (simp add: blank_def para_sep_def is_space_def)

lemma blank_newline: "blank newline"
  by (simp add: blank_def newline_def is_space_def)

lemma blank_space: "blank '' ''"
  by (simp add: blank_def is_space_def)

lemma blank_takeWhile: "blank (takeWhile is_space s)"
  by (induction s) (simp_all add: blank_def)

lemma spaced_blank_left: "blank w \<Longrightarrow> spaced ps s \<Longrightarrow> spaced ps (w @ s)"
proof (erule spaced.cases)
  fix w' assume "blank w" "ps = []" "s = w'" "blank w'"
  then show ?thesis by (simp add: spaced_Nil blank_append)
next
  fix w' ps' s' p assume a: "blank w" "ps = p # ps'" "s = w' @ p @ s'" "blank w'" "spaced ps' s'"
  have "spaced (p # ps') ((w @ w') @ p @ s')"
    using a by (intro spaced_Cons) (simp_all add: blank_append)
  then show ?thesis using a by simp
qed

lemma spaced_append: "spaced ps s \<Longrightarrow> spaced qs t \<Longrightarrow> spaced (ps @ qs) (s @ t)"
proof (induction rule: spaced.induct)
  case (spaced_Nil w)
  then show ?case by (simp add: spaced_blank_left)
next
  case (spaced_Cons w ps s p)
  have "spaced (p # (ps @ qs)) (w @ p @ (s @ t))"
    using spaced_Cons by (intro spaced.spaced_Cons) simp_all
  then show ?case by simp
qed

lemma spaced_single: "spaced [p] p"
  using spaced_Cons [of "[]" "[]" "[]" p] by (simp add: blank_Nil spaced_Nil)

lemma spaced_blank_right: "spaced ps s \<Longrightarrow> blank w \<Longrightarrow> spaced ps (s @ w)"
  using spaced_append [of ps s "[]" w] by (simp add: spaced_Nil)

lemma spaced_snoc: "spaced ps s \<Longrightarrow> blank w \<Longrightarrow> spaced (ps @ [p]) (s @ w @ p)"
  using spaced_append [of ps s "[p]" "w @ p"] spaced_blank_left [of w "[p]" p]
  by (simp add: spaced_single)

lemma spaced_empty_text: "spaced ps [] \<Longrightarrow> list_all (\<lambda>p. p \<noteq> []) ps \<Longrightarrow> ps = []"
  by (erule spaced.cases) auto

lemma spaced_filter:
  "spaced ps s \<Longrightarrow> \<forall>p\<in>set ps. \<not> keep p \<longrightarrow> blank p \<Longrightarrow> spaced (filter keep ps) s"
proof (induction rule: spaced.induct)
  case (spaced_Nil w)
  then show ?case by (simp add: spaced.spaced_Nil)
next
  case (spaced_Cons w ps s p)
  have rest: "spaced (filter keep ps) s"
    using spaced_Cons by simp
  show ?case
  proof (cases "keep p")
    case True
    then show ?thesis
      using spaced_Cons.hyps(1) rest by (simp add: spaced.spaced_Cons)
  next
    case False
    then have "blank (w @ p)"
      using spaced_Cons by (simp add: blank_append)
    then have "spaced (filter keep ps) ((w @ p) @ s)"
      using rest by (rule spaced_blank_left)
    then show ?thesis
      using False by simp
  qed
qed

lemma chunked_snoc: "chunked ps cs \<Longrightarrow> spaced g c \<Longrightarrow> chunked (ps @ g) (cs @ [c])"
proof (induction rule: chunked.induct)
  case chunked_Nil
  then show ?case
    using chunked_Cons [of g c "[]" "[]"] by (simp add: chunked.chunked_Nil)
next
  case (chunked_Cons g' c' ps cs)
  have "chunked (g' @ (ps @ g)) (c' # (cs @ [c]))"
    using chunked_Cons by (intro chunked.chunked_Cons) simp_all
  then show ?case by simp
qed

lemma chunked_snoc_inv:
  "chunked ps (cs @ [c]) \<Longrightarrow> \<exists>ps' g. ps = ps' @ g \<and> chunked ps' cs \<and> spaced g c"
proof (induction cs arbitrary: ps)
  case Nil
  then obtain g ps0 where "ps = g @ ps0" "spaced g c" "chunked ps0 []"
    by (auto elim: chunked_ConsE)
  moreover then have "ps0 = []" by (auto elim: chunked_NilE)
  ultimately show ?case
    using chunked_Nil by auto
next
  case (Cons c0 cs)
  then obtain g0 ps0 where a: "ps = g0 @ ps0" "spaced g0 c0" "chunked ps0 (cs @ [c])"
    by (auto elim: chunked_ConsE)
  from Cons.IH [OF a(3)] obtain ps' g where
    b: "ps0 = ps' @ g" "chunked ps' cs" "spaced g c" by blast
  have "chunked (g0 @ ps') (c0 # cs)"
    using a(2) b(2) by (rule chunked_Cons)
  moreover have "ps = (g0 @ ps') @ g"
    using a(1) b(1) by simp
  ultimately show ?case
    using b(3) by blast
qed

lemma strip_decompose: "\<exists>w1 w2. blank w1 \<and> blank w2 \<and> s = w1 @ strip s @ w2"
proof -
  let ?d = "dropWhile is_space s"
  have a: "s = takeWhile is_space s @ ?d" by simp
  have "rev ?d = takeWhile is_space (rev ?d) @ dropWhile is_space (rev ?d)"
    by simp
  then have "rev (rev ?d) = rev (takeWhile is_space (rev ?d) @ dropWhile is_space (rev ?d))"
    by (rule arg_cong)
  then have b: "?d = rev (dropWhile is_space (rev ?d)) @ rev (takeWhile is_space (rev ?d))"
    by (simp only: rev_rev_ident rev_append)
  have "blank (rev (takeWhile is_space (rev ?d)))"
    using blank_takeWhile [of "rev ?d"] by (simp add: blank_def)
  moreover have "s = takeWhile is_space s @ strip s @ rev (takeWhile is_space (rev ?d))"
  proof -
    have "strip s = rev (dropWhile is_space (rev ?d))"
      by (simp add: strip_def rstrip_def lstrip_def)
    then have "strip s @ rev (takeWhile is_space (rev ?d)) = ?d"
      using b by (simp only:)
    then show ?thesis
      using a by (simp only:)
  qed
  ultimately show ?thesis
    using blank_takeWhile [of s] by blast
qed

lemma strip_blank: "strip s = [] \<Longrightarrow> blank s"
proof -
  assume e: "strip s = []"
  obtain w1 w2 where w: "blank w1" "blank w2" "s = w1 @ strip s @ w2"
    using strip_decompose by blast
  have "s = w1 @ w2"
    using w(3) unfolding e by simp
  then show ?thesis
    using w(1,2) by (simp only: blank_append)
qed

lemma blank_strip: "blank s \<Longrightarrow> strip s = []"
proof -
  assume "blank s"
  then have d: "dropWhile is_space s = []"
    by (simp add: blank_def list_all_iff dropWhile_eq_Nil_conv)
  show ?thesis
    unfolding strip_def rstrip_def lstrip_def d by simp
qed

lemma spaced_strip: "spaced ps (strip s) \<Longrightarrow> spaced ps s"
proof -
  assume a: "spaced ps (strip s)"
  obtain w1 w2 where w: "blank w1" "blank w2" "s = w1 @ strip s @ w2"
    using strip_decompose by blast
  have "spaced ps (strip s @ w2)"
    using a w(2) by (rule spaced_blank_right)
  with w(1) have "spaced ps (w1 @ strip s @ w2)"
    by (rule spaced_blank_left)
  then show ?thesis by (subst w(3))
qed

lemma spaced_split_sentences_from: "spaced (split_sentences_from cur s) (cur @ s)"
proof (induction cur s rule: split_sentences_from.induct)
  case (1 cur s)
  show ?case
  proof (cases "s = []")
    case True
    then show ?thesis
      by (subst split_sentences_from.simps) (simp add: spaced_single)
  next
    case ne: False
    show ?thesis
    proof (cases "sentence_end (hd s) \<and> tl s \<noteq> [] \<and> is_space (hd (tl s))")
      case True
      have rest: "spaced (split_sentences_from [] (dropWhile is_space (tl s)))
                    (dropWhile is_space (tl s))"
        using "1.IH"(1) [OF ne True] by simp
      have "spaced (split_sentences_from [] (dropWhile is_space (tl s)))
              (takeWhile is_space (tl s) @ dropWhile is_space (tl s))"
        using blank_takeWhile [of "tl s"] rest by (rule spaced_blank_left)
      with blank_Nil
      have "spaced ((cur @ [hd s]) # split_sentences_from [] (dropWhile is_space (tl s)))
              ([] @ (cur @ [hd s]) @ (takeWhile is_space (tl s) @ dropWhile is_space (tl s)))"
        by (rule spaced_Cons)
      then have "spaced ((cur @ [hd s]) # split_sentences_from [] (dropWhile is_space (tl s)))
              (cur @ hd s # tl s)"
        by simp
      moreover have "split_sentences_from cur s
            = (cur @ [hd s]) # split_sentences_from [] (dropWhile is_space (tl s))"
        using ne True by (subst split_sentences_from.simps) simp
      ultimately have "spaced (split_sentences_from cur s) (cur @ hd s # tl s)"
        by (simp only:)
      then show ?thesis
        by (simp only: hd_Cons_tl [OF ne])
    next
      case False
      have "spaced (split_sentences_from (cur @ [hd s]) (tl s)) ((cur @ [hd s]) @ tl s)"
        using "1.IH"(2) [OF ne False] .
      then have "spaced (split_sentences_from (cur @ [hd s]) (tl s)) (cur @ hd s # tl s)"
        by simp
      moreover have "split_sentences_from cur s = split_sentences_from (cur @ [hd s]) (tl s)"
        using ne False by (subst split_sentences_from.simps) auto
      ultimately have "spaced (split_sentences_from cur s) (cur @ hd s # tl s)"
        by (simp only:)
      then show ?thesis
        by (simp only: hd_Cons_tl [OF ne])
    qed
  qed
qed

lemma spaced_re_split_sentences: "spaced (re_split_sentences s) s"
  using spaced_split_sentences_from [of "[]" s] by (simp add: re_split_sentences_def)

lemma spaced_split_from:
  assumes f: "\<And>p. spaced (f p) p" and sep: "blank sep"
  shows "spaced (concat (map f (split_from sep cur s))) (cur @ s)"
  using sep
proof (induction sep cur s rule: split_from.induct)
  case (1 sep' cur s)
  show ?case
  proof (cases "s = []")
    case True
    then show ?thesis
      by (subst split_from.simps) (simp add: f)
  next
    case ne: False
    show ?thesis
    proof (cases "sep' \<noteq> [] \<and> take (length sep') s = sep'")
      case True
      have s: "sep' @ drop (length sep') s = s"
        using True append_take_drop_id [of "length sep'" s] by simp
      have rest: "spaced (concat (map f (split_from sep' [] (drop (length sep') s))))
                    (drop (length sep') s)"
        using "1.IH"(1) [OF ne True] "1.prems" by simp
      have "spaced (concat (map f (split_from sep' [] (drop (length sep') s))))
              (sep' @ drop (length sep') s)"
        using "1.prems" rest by (rule spaced_blank_left)
      with f [of cur]
      have "spaced (f cur @ concat (map f (split_from sep' [] (drop (length sep') s))))
              (cur @ (sep' @ drop (length sep') s))"
        by (rule spaced_append)
      then have "spaced (concat (map f (cur # split_from sep' [] (drop (length sep') s))))
              (cur @ (sep' @ drop (length sep') s))"
        by simp
      moreover have "split_from sep' cur s = cur # split_from sep' [] (drop (length sep') s)"
        using ne True by (subst split_from.simps) simp
      ultimately have "spaced (concat (map f (split_from sep' cur s)))
              (cur @ (sep' @ drop (length sep') s))"
        by (simp only:)
      then show ?thesis
        by (simp only: s)
    next
      case False
      have "spaced (concat (map f (split_from sep' (cur @ [hd s]) (tl s)))) ((cur @ [hd s]) @ tl s)"
        using "1.IH"(2) [OF ne False] "1.prems" by simp
      then have "spaced (concat (map f (split_from sep' (cur @ [hd s]) (tl s)))) (cur @ hd s # tl s)"
        by simp
      moreover have "split_from sep' cur s = split_from sep' (cur @ [hd s]) (tl s)"
        using ne False by (subst split_from.simps) auto
      ultimately have "spaced (concat (map f (split_from sep' cur s))) (cur @ hd s # tl s)"
        by (simp only:)
      then show ?thesis
        by (simp only: hd_Cons_tl [OF ne])
    qed
  qed
qed

lemma spaced_paragraph_pieces: "spaced (paragraph_pieces m p) p"
proof (cases "strip p = []")
  case True
  then show ?thesis
    by (simp add: paragraph_pieces_def spaced_Nil strip_blank)
next
  case False
  have "spaced (filter (\<lambda>sent. sent \<noteq> []) (re_split_sentences (strip p))) (strip p)"
    using spaced_re_split_sentences [of "strip p"]
    by (rule spaced_filter) (simp add: blank_Nil)
  then have a: "spaced (filter (\<lambda>sent. sent \<noteq> []) (re_split_sentences (strip p))) p"
    by (rule spaced_strip)
  have b: "spaced [strip p] p"
    using spaced_single [of "strip p"] by (rule spaced_strip)
  show ?thesis
    using False a b by (simp add: paragraph_pieces_def Let_def)
qed

lemma spaced_pieces: "spaced (pieces m s) s"
  using spaced_split_from [of "paragraph_pieces m" para_sep "[]" s]
  by (simp add: pieces_def str_split_def spaced_paragraph_pieces blank_para_sep)

lemma spaced_kdp_sentences: "spaced (kdp_sentences p) p"
proof -
  have "spaced (concat (map (\<lambda>l. [l]) (split_from newline [] p))) ([] @ p)"
    by (rule spaced_split_from) (simp_all add: spaced_single blank_newline)
  then have "spaced (str_split newline p) p"
    by (simp add: str_split_def)
  then show ?thesis
    by (simp add: kdp_sentences_def spaced_re_split_sentences)
qed

lemma spaced_kdp_paragraph_pieces: "spaced (kdp_paragraph_pieces m p) p"
proof (cases "strip p = []")
  case True
  then show ?thesis
    by (simp add: kdp_paragraph_pieces_def spaced_Nil strip_blank)
next
  case False
  have "spaced (filter (\<lambda>sentence. strip sentence \<noteq> []) (kdp_sentences p)) p"
    using spaced_kdp_sentences [of p]
    by (rule spaced_filter) (simp add: strip_blank)
  then show ?thesis
    using False by (simp add: kdp_paragraph_pieces_def spaced_single)
qed

lemma spaced_kdp_pieces: "spaced (kdp_pieces m s) s"
  using spaced_split_from [of "kdp_paragraph_pieces m" para_sep "[]" s]
  by (simp add: kdp_pieces_def str_split_def spaced_kdp_paragraph_pieces blank_para_sep)

lemma paragraph_pieces_nonempty: "list_all (\<lambda>p. p \<noteq> []) (paragraph_pieces m p)"
  by (simp add: paragraph_pieces_def Let_def list_all_iff)

lemma kdp_paragraph_pieces_nonempty: "list_all (\<lambda>p. p \<noteq> []) (kdp_paragraph_pieces m p)"
  by (auto simp: kdp_paragraph_pieces_def list_all_iff strip_Nil)

lemma count_tokens_nonneg: "0 \<le> count_tokens s"
  by (simp add: count_tokens_def pos_imp_zdiv_nonneg_iff)

lemma count_tokens_approx_nonneg: "0 \<le> count_tokens_approx s"
  by (simp add: count_tokens_approx_def pos_imp_zdiv_nonneg_iff)

lemma built_init: "built [] ([], [], t)"
  by (simp add: built_def chunked_Nil spaced_Nil blank_Nil)

lemma built_flush:
  assumes "built ps st" and "list_all (\<lambda>p. p \<noteq> []) ps"
  shows "chunked ps (flush st)"
proof (cases st)
  case (fields chunks current t)
  obtain ps1 ps2 where p: "ps = ps1 @ ps2" "chunked ps1 chunks" "spaced ps2 current"
    using assms(1) fields by (auto simp: built_def)
  show ?thesis
  proof (cases "current = []")
    case True
    then have "ps2 = []"
      using p(1,3) assms(2) spaced_empty_text [of ps2] by simp
    then show ?thesis
      using True p fields by simp
  next
    case False
    then show ?thesis
      using p fields chunked_snoc [OF p(2,3)] by simp
  qed
qed

text \<open>Saving the chunk in progress, as every loop does before it starts a new one.\<close>

lemma built_save:
  assumes "built ps (chunks, current, t)" and "list_all (\<lambda>p. p \<noteq> []) ps"
  shows "chunked ps (if current \<noteq> [] then chunks @ [current] else chunks)"
proof -
  have "built ps (chunks, current, 0 :: int)"
    using assms(1) by (simp add: built_def)
  from built_flush [OF this assms(2)] show ?thesis by simp
qed

lemma built_start:
  "chunked ps chunks \<Longrightarrow> spaced g current \<Longrightarrow> built (ps @ g) (chunks, current, t)"
  by (auto simp: built_def)

lemma built_join:
  assumes "built ps (chunks, current, t)" and "spaced g c" and "blank w"
  shows "built (ps @ g) (chunks, current @ w @ c, t')"
proof -
  obtain ps1 ps2 where p: "ps = ps1 @ ps2" "chunked ps1 chunks" "spaced ps2 current"
    using assms(1) by (auto simp: built_def)
  have "spaced g (w @ c)"
    using assms(3,2) by (rule spaced_blank_left)
  with p(3) have "spaced (ps2 @ g) (current @ w @ c)"
    by (rule spaced_append)
  then show ?thesis
    using p(1,2) by (auto simp: built_def)
qed

lemma spaced_piece: "spaced (filter (\<lambda>x. x \<noteq> []) [sent]) sent"
  by (simp add: spaced_single spaced_Nil blank_Nil)

lemma built_saved:
  "chunked ps chunks \<Longrightarrow> built ps (chunks, [], t)"
  using built_start [of ps chunks "[]" "[]" t] by (simp add: spaced_Nil blank_Nil)

lemma sentence_step_built:
  assumes "built ps st" and "list_all (\<lambda>p. p \<noteq> []) ps"
  shows "built (ps @ filter (\<lambda>x. x \<noteq> []) [sent]) (sentence_step m sent st)"
proof (cases st)
  case (fields chunks sub sub_tokens)
  let ?g = "filter (\<lambda>x. x \<noteq> []) [sent]"
  note b = assms(1) [unfolded fields]
  have saved: "chunked ps (if sub \<noteq> [] then chunks @ [sub] else chunks)"
    using b assms(2) by (rule built_save)
  show ?thesis
  proof (cases "sub_tokens + count_tokens sent + 1 \<le> m")
    case True
    have "built (ps @ ?g) (chunks, sub @ (if sub \<noteq> [] then '' '' else []) @ sent,
            count_tokens (sub @ (if sub \<noteq> [] then '' '' else []) @ sent))"
      using b spaced_piece by (rule built_join) (simp add: blank_space blank_Nil)
    then show ?thesis
      using fields True by (simp add: Let_def)
  next
    case False
    show ?thesis
    proof (cases "count_tokens sent > m")
      case True
      have "chunked (ps @ ?g) ((if sub \<noteq> [] then chunks @ [sub] else chunks) @ [sent])"
        using saved spaced_piece by (rule chunked_snoc)
      then have "built (ps @ ?g) ((if sub \<noteq> [] then chunks @ [sub] else chunks) @ [sent], [], 0::int)"
        by (rule built_saved)
      then show ?thesis
        using fields False True by (simp add: Let_def)
    next
      case le: False
      have "built (ps @ ?g) ((if sub \<noteq> [] then chunks @ [sub] else chunks), sent,
              count_tokens sent)"
        using saved spaced_piece by (rule built_start)
      then show ?thesis
        using fields False le by (simp add: Let_def)
    qed
  qed
qed

lemma fold_sentence_step_built:
  "built ps st \<Longrightarrow> list_all (\<lambda>p. p \<noteq> []) ps
   \<Longrightarrow> built (ps @ filter (\<lambda>x. x \<noteq> []) sents) (fold (sentence_step m) sents st)"
proof (induction sents arbitrary: ps st)
  case Nil
  then show ?case by simp
next
  case (Cons sent sents)
  have a: "built (ps @ filter (\<lambda>x. x \<noteq> []) [sent]) (sentence_step m sent st)"
    using Cons.prems by (rule sentence_step_built)
  have b: "list_all (\<lambda>p. p \<noteq> []) (ps @ filter (\<lambda>x. x \<noteq> []) [sent])"
    using Cons.prems(2) by simp
  from Cons.IH [OF a b] show ?case by (cases "sent = []") simp_all
qed

lemma sentence_step_tokens: "0 \<le> snd (snd (sentence_step m sent st))"
  by (cases st) (simp add: Let_def count_tokens_nonneg)

lemma fold_sentence_step_tokens:
  "0 \<le> snd (snd st) \<Longrightarrow> 0 \<le> snd (snd (fold (sentence_step m) sents st))"
  by (induction sents arbitrary: st) (simp_all add: sentence_step_tokens)

lemma paragraph_step_built:
  assumes "built ps st" and "list_all (\<lambda>p. p \<noteq> []) ps" and "0 \<le> snd (snd st)"
  shows "built (ps @ paragraph_pieces m para) (paragraph_step m para st)
       \<and> 0 \<le> snd (snd (paragraph_step m para st))"
proof (cases st)
  case (fields chunks current current_tokens)
  note b = assms(1) [unfolded fields]
  have t: "0 \<le> current_tokens"
    using assms(3) fields by simp
  let ?chunks1 = "if current \<noteq> [] then chunks @ [current] else chunks"
  have saved: "chunked ps ?chunks1"
    using b assms(2) by (rule built_save)
  show ?thesis
  proof (cases "strip para = []")
    case True
    then show ?thesis
      using fields assms(1,3) by (simp add: paragraph_pieces_def)
  next
    case ne: False
    show ?thesis
    proof (cases "current_tokens + count_tokens (strip para) + 2 \<le> m")
      case True
      then have small: "\<not> count_tokens (strip para) > m"
        using t by simp
      have "built (ps @ [strip para])
              (chunks, current @ (if current \<noteq> [] then para_sep else []) @ strip para,
               count_tokens (current @ (if current \<noteq> [] then para_sep else []) @ strip para))"
        using b spaced_single by (rule built_join) (simp add: blank_para_sep blank_Nil)
      then show ?thesis
        using fields ne True small
        by (simp add: Let_def paragraph_pieces_def count_tokens_nonneg)
    next
      case False
      show ?thesis
      proof (cases "count_tokens (strip para) > m")
        case True
        let ?sents = "re_split_sentences (strip para)"
        obtain chunks2 sub sub_tokens where
          o: "fold (sentence_step m) ?sents (?chunks1, [], 0) = (chunks2, sub, sub_tokens)"
          by (cases "fold (sentence_step m) ?sents (?chunks1, [], 0)")
        have "built ps (?chunks1, [], 0::int)"
          using saved by (rule built_saved)
        then have "built (ps @ filter (\<lambda>x. x \<noteq> []) ?sents)
                     (fold (sentence_step m) ?sents (?chunks1, [], 0))"
          using assms(2) by (rule fold_sentence_step_built)
        then have "built (ps @ filter (\<lambda>x. x \<noteq> []) ?sents) (chunks2, sub, sub_tokens)"
          by (simp only: o)
        then have bb: "built (ps @ filter (\<lambda>x. x \<noteq> []) ?sents)
                     (chunks2, (if sub \<noteq> [] then sub else []),
                      (if sub \<noteq> [] then sub_tokens else 0))"
          by (cases "sub = []") (simp_all add: built_def)
        have "0 \<le> snd (snd (fold (sentence_step m) ?sents (?chunks1, [], 0)))"
          by (rule fold_sentence_step_tokens) simp
        then have "0 \<le> sub_tokens"
          by (simp add: o)
        then show ?thesis
          using fields ne False True o bb
          by (simp add: Let_def paragraph_pieces_def)
      next
        case le: False
        have "built (ps @ [strip para]) (?chunks1, strip para, count_tokens (strip para))"
          using saved spaced_single by (rule built_start)
        then show ?thesis
          using fields ne False le
          by (simp add: Let_def paragraph_pieces_def count_tokens_nonneg)
      qed
    qed
  qed
qed

lemma fold_paragraph_step_built:
  "built ps st \<Longrightarrow> list_all (\<lambda>p. p \<noteq> []) ps \<Longrightarrow> 0 \<le> snd (snd st)
   \<Longrightarrow> built (ps @ concat (map (paragraph_pieces m) paras)) (fold (paragraph_step m) paras st)"
proof (induction paras arbitrary: ps st)
  case Nil
  then show ?case by simp
next
  case (Cons para paras)
  have a: "built (ps @ paragraph_pieces m para) (paragraph_step m para st)"
    and t: "0 \<le> snd (snd (paragraph_step m para st))"
    using paragraph_step_built [OF Cons.prems] by simp_all
  have b: "list_all (\<lambda>p. p \<noteq> []) (ps @ paragraph_pieces m para)"
    using Cons.prems(2) paragraph_pieces_nonempty by simp
  from Cons.IH [OF a b t] show ?case by simp
qed

lemma merge_step_built:
  assumes "built ps st" and "list_all (\<lambda>p. p \<noteq> []) ps" and "spaced g c"
  shows "built (ps @ g) (merge_step m c st)"
proof (cases st)
  case (fields merged temp temp_tokens)
  note b = assms(1) [unfolded fields]
  show ?thesis
  proof (cases "temp_tokens + count_tokens c + 2 \<le> m")
    case True
    have "built (ps @ g) (merged, temp @ (if temp \<noteq> [] then para_sep else []) @ c,
            count_tokens (temp @ (if temp \<noteq> [] then para_sep else []) @ c))"
      using b assms(3) by (rule built_join) (simp add: blank_para_sep blank_Nil)
    then show ?thesis
      using fields True by (simp add: Let_def)
  next
    case False
    have "chunked ps (if temp \<noteq> [] then merged @ [temp] else merged)"
      using b assms(2) by (rule built_save)
    then have "built (ps @ g) ((if temp \<noteq> [] then merged @ [temp] else merged), c, count_tokens c)"
      using assms(3) by (rule built_start)
    then show ?thesis
      using fields False by (simp add: Let_def)
  qed
qed

lemma fold_merge_step_built:
  "chunked qs cs \<Longrightarrow> built ps st \<Longrightarrow> list_all (\<lambda>p. p \<noteq> []) (ps @ qs)
   \<Longrightarrow> built (ps @ qs) (fold (merge_step m) cs st)"
proof (induction arbitrary: ps st rule: chunked.induct)
  case chunked_Nil
  then show ?case by simp
next
  case (chunked_Cons g c qs cs)
  have a: "built (ps @ g) (merge_step m c st)"
    using chunked_Cons.prems(1) _ chunked_Cons.hyps(1)
    by (rule merge_step_built) (use chunked_Cons.prems(2) in simp)
  have "built ((ps @ g) @ qs) (fold (merge_step m) cs (merge_step m c st))"
    using a by (rule chunked_Cons.IH) (use chunked_Cons.prems(2) in simp)
  then show ?case by simp
qed

lemma split_from_chars: "p \<in> set (split_from sep cur s) \<Longrightarrow> set p \<subseteq> set cur \<union> set s"
proof (induction sep cur s rule: split_from.induct)
  case (1 sep cur s)
  show ?case
  proof (cases "s = []")
    case True
    then show ?thesis
      using "1.prems" by (subst (asm) split_from.simps) simp
  next
    case ne: False
    show ?thesis
    proof (cases "sep \<noteq> [] \<and> take (length sep) s = sep")
      case True
      have "split_from sep cur s = cur # split_from sep [] (drop (length sep) s)"
        using ne True by (subst split_from.simps) simp
      then have "p = cur \<or> p \<in> set (split_from sep [] (drop (length sep) s))"
        using "1.prems" by simp
      then show ?thesis
        using "1.IH"(1) [OF ne True] set_drop_subset [of "length sep" s] by auto
    next
      case False
      have "split_from sep cur s = split_from sep (cur @ [hd s]) (tl s)"
        using ne False by (subst split_from.simps) auto
      then have "set p \<subseteq> set (cur @ [hd s]) \<union> set (tl s)"
        using "1.prems" "1.IH"(2) [OF ne False] by simp
      moreover have "set (cur @ [hd s]) \<union> set (tl s) = set cur \<union> set s"
        using ne by (cases s) auto
      ultimately show ?thesis by simp
    qed
  qed
qed

lemma blank_pieces: "blank s \<Longrightarrow> pieces m s = []"
proof -
  assume bs: "blank s"
  have "paragraph_pieces m p = []" if "p \<in> set (str_split para_sep s)" for p
  proof -
    have "set p \<subseteq> set s"
      using that split_from_chars [of p para_sep "[]" s] by (simp add: str_split_def)
    then have "blank p"
      using bs by (auto simp: blank_def list_all_iff)
    then show ?thesis
      by (simp add: paragraph_pieces_def blank_strip)
  qed
  then show ?thesis
    by (simp add: pieces_def)
qed

lemma pieces_nonempty: "list_all (\<lambda>p. p \<noteq> []) (pieces m s)"
  using paragraph_pieces_nonempty by (auto simp: pieces_def list_all_iff)

lemma create_chunks_chunked: "chunked (pieces m s) (create_chunks s m)"
proof (cases "s = [] \<or> strip s = []")
  case True
  then have "blank s"
    using strip_blank [of s] by (auto simp: blank_Nil)
  then show ?thesis
    using True by (simp add: create_chunks_def blank_pieces chunked_Nil)
next
  case False
  let ?st = "fold (paragraph_step m) (str_split para_sep s) ([], [], 0)"
  have "built ([] @ concat (map (paragraph_pieces m) (str_split para_sep s))) ?st"
    by (rule fold_paragraph_step_built) (simp_all add: built_init)
  then have "built (pieces m s) ?st"
    by (simp add: pieces_def)
  then have c: "chunked (pieces m s) (flush ?st)"
    using pieces_nonempty by (rule built_flush)
  have "built ([] @ pieces m s) (fold (merge_step m) (flush ?st) ([], [], 0))"
    using c by (rule fold_merge_step_built) (simp_all add: built_init pieces_nonempty)
  then have "chunked (pieces m s) (flush (fold (merge_step m) (flush ?st) ([], [], 0)))"
    using pieces_nonempty by (intro built_flush) simp_all
  then show ?thesis
    using False by (simp add: create_chunks_def Let_def)
qed

lemma spaced_sentence: "spaced (filter (\<lambda>x. strip x \<noteq> []) [sentence]) sentence"
  by (simp add: spaced_single spaced_Nil strip_blank)

lemma built4: "built ps (chunks, sub, t, a) \<longleftrightarrow> built ps (chunks, sub, 0::int)"
  by (simp add: built_def)

lemma kdp_sentence_step_built:
  assumes "built ps st" and "list_all (\<lambda>p. p \<noteq> []) ps"
  shows "built (ps @ filter (\<lambda>x. strip x \<noteq> []) [sentence]) (kdp_sentence_step m sentence st)"
proof (cases st)
  case (fields chunks sub sub_tokens added)
  let ?g = "filter (\<lambda>x. strip x \<noteq> []) [sentence]"
  note b = assms(1) [unfolded fields]
  have b3: "built ps (chunks, sub, 0::int)"
    using b by (simp add: built_def)
  have saved: "chunked ps (if sub \<noteq> [] then chunks @ [sub] else chunks)"
    using b3 assms(2) by (rule built_save)
  show ?thesis
  proof (cases "strip sentence = []")
    case True
    then show ?thesis
      using fields assms(1) by simp
  next
    case ne: False
    let ?cost = "count_tokens_approx sentence
                 + (if sub \<noteq> [] then count_tokens_approx newline else 0)"
    show ?thesis
    proof (cases "sub_tokens + ?cost \<le> m")
      case True
      have "built (ps @ ?g) (chunks, sub @ (if sub \<noteq> [] then newline else []) @ sentence,
              (count_tokens_approx (sub @ (if sub \<noteq> [] then newline else []) @ sentence), added))"
        using b spaced_sentence by (rule built_join) (simp add: blank_newline blank_Nil)
      then show ?thesis
        using fields ne True by (simp add: Let_def)
    next
      case False
      show ?thesis
      proof (cases "count_tokens_approx sentence > m")
        case True
        have "chunked (ps @ ?g) ((if sub \<noteq> [] then chunks @ [sub] else chunks) @ [sentence])"
          using saved spaced_sentence by (rule chunked_snoc)
        then have "built (ps @ ?g) ((if sub \<noteq> [] then chunks @ [sub] else chunks) @ [sentence], [],
                     (0::int, (if sub \<noteq> [] then added + 1 else added) + 1))"
          by (rule built_saved)
        then show ?thesis
          using fields ne False True by (simp add: Let_def)
      next
        case le: False
        have "built (ps @ ?g) ((if sub \<noteq> [] then chunks @ [sub] else chunks), sentence,
                (count_tokens_approx sentence, (if sub \<noteq> [] then added + 1 else added)))"
          using saved spaced_sentence by (rule built_start)
        then show ?thesis
          using fields ne False le by (simp add: Let_def)
      qed
    qed
  qed
qed

lemma kdp_fold_sentence_step_built:
  "built ps st \<Longrightarrow> list_all (\<lambda>p. p \<noteq> []) ps
   \<Longrightarrow> built (ps @ filter (\<lambda>x. strip x \<noteq> []) sents) (fold (kdp_sentence_step m) sents st)"
proof (induction sents arbitrary: ps st)
  case Nil
  then show ?case by simp
next
  case (Cons sent sents)
  have a: "built (ps @ filter (\<lambda>x. strip x \<noteq> []) [sent]) (kdp_sentence_step m sent st)"
    using Cons.prems by (rule kdp_sentence_step_built)
  have b: "list_all (\<lambda>p. p \<noteq> []) (ps @ filter (\<lambda>x. strip x \<noteq> []) [sent])"
    using Cons.prems(2) by (auto simp: strip_Nil)
  from Cons.IH [OF a b] show ?case by (cases "strip sent = []") simp_all
qed

lemma visible_Nil_blank: "visible s = [] \<Longrightarrow> blank s"
  by (simp add: visible_def blank_def filter_empty_conv list_all_iff)

lemma subdivide_chunked:
  assumes "chunked ps chunks" and "list_all (\<lambda>p. p \<noteq> []) ps" and "strip p \<noteq> []"
  shows "chunked (ps @ filter (\<lambda>x. strip x \<noteq> []) (kdp_sentences p)) (subdivide m p chunks)"
proof -
  let ?sents = "kdp_sentences p"
  let ?ps = "ps @ filter (\<lambda>x. strip x \<noteq> []) ?sents"
  define out where "out = fold (kdp_sentence_step m) ?sents (chunks, [], 0, 0)"
  obtain chunks1 sub sub_tokens added where o: "out = (chunks1, sub, sub_tokens, added)"
    by (cases out) auto
  have "built ps (chunks, [], (0::int, 0::nat))"
    using assms(1) by (rule built_saved)
  then have "built ?ps out"
    unfolding out_def using assms(2) by (rule kdp_fold_sentence_step_built)
  then have "built ?ps (chunks1, sub, 0::int)"
    by (simp add: o built_def)
  moreover have ne: "list_all (\<lambda>p. p \<noteq> []) ?ps"
    using assms(2) by (auto simp: list_all_iff strip_Nil)
  ultimately have saved: "chunked ?ps (if sub \<noteq> [] then chunks1 @ [sub] else chunks1)"
    by (rule built_save)
  have vs: "visible (concat ?sents) = visible p"
    by (simp add: kdp_sentences_def visible_re_split_sentences visible_str_split_newline)
  have busy: "\<not> (sub = [] \<and> added = 0)"
  proof
    assume "sub = [] \<and> added = 0"
    then have "fst (snd out) = []" "snd (snd (snd out)) = 0"
      by (simp_all add: o)
    then have "visible (concat ?sents) = []"
      unfolding out_def using kdp_fold_sentence_step_idle by blast
    then have "blank p"
      using vs visible_Nil_blank by simp
    then show False
      using assms(3) blank_strip by blast
  qed
  have "subdivide m p chunks =
        (let chunks2 = (if sub \<noteq> [] then chunks1 @ [sub] else chunks1);
             added2 = (if sub \<noteq> [] then added + 1 else added)
         in if added2 = 0 then chunks2 @ [p] else chunks2)"
    using o by (simp add: subdivide_def Let_def out_def kdp_sentences_def)
  then have "subdivide m p chunks = (if sub \<noteq> [] then chunks1 @ [sub] else chunks1)"
    using busy by (auto simp: Let_def)
  then show ?thesis
    using saved by (simp only:)
qed

lemma built_tweak:
  assumes "built ps (chunks, current, t)" and "chunks \<noteq> []" and "blank w"
  shows "built ps (butlast chunks @ [last chunks @ w], current, t)"
proof -
  obtain ps1 ps2 where p: "ps = ps1 @ ps2" "chunked ps1 chunks" "spaced ps2 current"
    using assms(1) by (auto simp: built_def)
  have "chunked ps1 (butlast chunks @ [last chunks])"
    using p(2) assms(2) by simp
  then obtain ps' g where q: "ps1 = ps' @ g" "chunked ps' (butlast chunks)" "spaced g (last chunks)"
    using chunked_snoc_inv by blast
  have "spaced g (last chunks @ w)"
    using q(3) assms(3) by (rule spaced_blank_right)
  with q(2) have "chunked (ps' @ g) (butlast chunks @ [last chunks @ w])"
    by (rule chunked_snoc)
  moreover have "ps = (ps' @ g) @ ps2"
    using p(1) q(1) by simp
  ultimately show ?thesis
    using p(3) unfolding built_def by (intro exI [of _ "ps' @ g"] exI [of _ ps2]) simp
qed

lemma kdp_paragraph_step_built:
  assumes "built ps st" and "list_all (\<lambda>p. p \<noteq> []) ps" and "0 \<le> snd (snd st)"
  shows "built (ps @ kdp_paragraph_pieces m para) (kdp_paragraph_step m para st)
       \<and> 0 \<le> snd (snd (kdp_paragraph_step m para st))"
proof (cases st)
  case (fields chunks current current_tokens)
  note b = assms(1) [unfolded fields]
  have t: "0 \<le> current_tokens"
    using assms(3) fields by simp
  let ?chunks1 = "if current \<noteq> [] then chunks @ [current] else chunks"
  have saved: "chunked ps ?chunks1"
    using b assms(2) by (rule built_save)
  show ?thesis
  proof (cases "strip para = []")
    case True
    have "chunks \<noteq> [] \<Longrightarrow>
          built ps (butlast chunks @ [last chunks @ para_sep], current, current_tokens)"
      using b _ blank_para_sep by (rule built_tweak)
    then show ?thesis
      using fields True b t by (simp add: kdp_paragraph_pieces_def)
  next
    case ne: False
    let ?cost = "count_tokens_approx para
                 + (if current \<noteq> [] then count_tokens_approx para_sep else 0)"
    have cost: "count_tokens_approx para \<le> ?cost"
      using count_tokens_approx_nonneg [of para_sep] by simp
    show ?thesis
    proof (cases "current_tokens + ?cost \<le> m")
      case True
      then have small: "\<not> count_tokens_approx para > m"
        using t cost by simp
      have "built (ps @ [para])
              (chunks, current @ (if current \<noteq> [] then para_sep else []) @ para,
               count_tokens_approx (current @ (if current \<noteq> [] then para_sep else []) @ para))"
        using b spaced_single by (rule built_join) (simp add: blank_para_sep blank_Nil)
      then show ?thesis
        using fields ne True small
        by (simp add: Let_def kdp_paragraph_pieces_def count_tokens_approx_nonneg)
    next
      case False
      show ?thesis
      proof (cases "count_tokens_approx para > m")
        case True
        have "chunked (ps @ filter (\<lambda>x. strip x \<noteq> []) (kdp_sentences para))
                (subdivide m para ?chunks1)"
          using saved assms(2) ne by (rule subdivide_chunked)
        then have "built (ps @ filter (\<lambda>x. strip x \<noteq> []) (kdp_sentences para))
                (subdivide m para ?chunks1, [], 0::int)"
          by (rule built_saved)
        then show ?thesis
          using fields ne False True by (simp add: Let_def kdp_paragraph_pieces_def)
      next
        case le: False
        have "built (ps @ [para]) (?chunks1, para, count_tokens_approx para)"
          using saved spaced_single by (rule built_start)
        then show ?thesis
          using fields ne False le
          by (simp add: Let_def kdp_paragraph_pieces_def count_tokens_approx_nonneg)
      qed
    qed
  qed
qed

lemma kdp_fold_paragraph_step_built:
  "built ps st \<Longrightarrow> list_all (\<lambda>p. p \<noteq> []) ps \<Longrightarrow> 0 \<le> snd (snd st)
   \<Longrightarrow> built (ps @ concat (map (kdp_paragraph_pieces m) paras))
         (fold (kdp_paragraph_step m) paras st)"
proof (induction paras arbitrary: ps st)
  case Nil
  then show ?case by simp
next
  case (Cons para paras)
  have a: "built (ps @ kdp_paragraph_pieces m para) (kdp_paragraph_step m para st)"
    and t: "0 \<le> snd (snd (kdp_paragraph_step m para st))"
    using kdp_paragraph_step_built [OF Cons.prems] by simp_all
  have b: "list_all (\<lambda>p. p \<noteq> []) (ps @ kdp_paragraph_pieces m para)"
    using Cons.prems(2) kdp_paragraph_pieces_nonempty by simp
  from Cons.IH [OF a b t] show ?case by simp
qed

lemma kdp_merge_step_built:
  assumes "built ps st" and "list_all (\<lambda>p. p \<noteq> []) ps" and "spaced g c"
  shows "built (ps @ g) (kdp_merge_step m c st)"
proof (cases st)
  case (fields merged temp temp_tokens)
  note b = assms(1) [unfolded fields]
  let ?cost = "count_tokens_approx c + (if temp \<noteq> [] then count_tokens_approx para_sep else 0)"
  show ?thesis
  proof (cases "temp_tokens + ?cost \<le> m")
    case True
    have "built (ps @ g) (merged, temp @ (if temp \<noteq> [] then para_sep else []) @ c,
            count_tokens_approx (temp @ (if temp \<noteq> [] then para_sep else []) @ c))"
      using b assms(3) by (rule built_join) (simp add: blank_para_sep blank_Nil)
    then show ?thesis
      using fields True by (simp add: Let_def)
  next
    case False
    have "chunked ps (if temp \<noteq> [] then merged @ [temp] else merged)"
      using b assms(2) by (rule built_save)
    then have "built (ps @ g) ((if temp \<noteq> [] then merged @ [temp] else merged), c,
                 count_tokens_approx c)"
      using assms(3) by (rule built_start)
    then show ?thesis
      using fields False by (simp add: Let_def)
  qed
qed

lemma kdp_fold_merge_step_built:
  "chunked qs cs \<Longrightarrow> built ps st \<Longrightarrow> list_all (\<lambda>p. p \<noteq> []) (ps @ qs)
   \<Longrightarrow> built (ps @ qs) (fold (kdp_merge_step m) cs st)"
proof (induction arbitrary: ps st rule: chunked.induct)
  case chunked_Nil
  then show ?case by simp
next
  case (chunked_Cons g c qs cs)
  have a: "built (ps @ g) (kdp_merge_step m c st)"
    using chunked_Cons.prems(1) _ chunked_Cons.hyps(1)
    by (rule kdp_merge_step_built) (use chunked_Cons.prems(2) in simp)
  have "built ((ps @ g) @ qs) (fold (kdp_merge_step m) cs (kdp_merge_step m c st))"
    using a by (rule chunked_Cons.IH) (use chunked_Cons.prems(2) in simp)
  then show ?case by simp
qed

lemma kdp_pieces_nonempty: "list_all (\<lambda>p. p \<noteq> []) (kdp_pieces m s)"
  using kdp_paragraph_pieces_nonempty by (auto simp: kdp_pieces_def list_all_iff)

lemma kdp_create_chunks_chunked: "chunked (kdp_pieces m s) (kdp_create_chunks s m)"
proof -
  let ?st = "fold (kdp_paragraph_step m) (str_split para_sep s) ([], [], 0)"
  have "built ([] @ concat (map (kdp_paragraph_pieces m) (str_split para_sep s))) ?st"
    by (rule kdp_fold_paragraph_step_built) (simp_all add: built_init)
  then have "built (kdp_pieces m s) ?st"
    by (simp add: kdp_pieces_def)
  then have c: "chunked (kdp_pieces m s) (flush ?st)"
    using kdp_pieces_nonempty by (rule built_flush)
  have "built ([] @ kdp_pieces m s) (fold (kdp_merge_step m) (flush ?st) ([], [], 0))"
    using c by (rule kdp_fold_merge_step_built) (simp_all add: built_init kdp_pieces_nonempty)
  then have "chunked (kdp_pieces m s) (flush (fold (kdp_merge_step m) (flush ?st) ([], [], 0)))"
    using kdp_pieces_nonempty by (intro built_flush) simp_all
  then show ?thesis
    by (simp add: kdp_create_chunks_def Let_def)
qed

lemma chunked_concat: "chunked ps cs \<Longrightarrow> spaced ps (concat cs)"
proof (induction rule: chunked.induct)
  case chunked_Nil
  then show ?case by (simp add: spaced_Nil blank_Nil)
next
  case (chunked_Cons g c ps cs)
  then show ?case by (simp add: spaced_append)
qed

text \<open>
  C2, amended. For every text and every limit, both chunkers keep the pieces of the text
  word for word and in order. The text is its pieces with whitespace only before,
  between and after them; the chunks divide the same pieces among them, every chunk
  being consecutive whole pieces with whitespace only around them; so the chunks
  concatenated are again the pieces with whitespace only between them. The text and
  the concatenated chunks differ in nothing but the whitespace at the boundaries of
  paragraphs and sentences.
\<close>

theorem chunk_coverage_pieces:
  "spaced (pieces max_tokens s) s
   \<and> chunked (pieces max_tokens s) (create_chunks s max_tokens)
   \<and> spaced (pieces max_tokens s) (concat (create_chunks s max_tokens))
   \<and> spaced (kdp_pieces max_tokens s) s
   \<and> chunked (kdp_pieces max_tokens s) (kdp_create_chunks s max_tokens)
   \<and> spaced (kdp_pieces max_tokens s) (concat (kdp_create_chunks s max_tokens))"
  by (simp add: spaced_pieces create_chunks_chunked spaced_kdp_pieces kdp_create_chunks_chunked
      chunked_concat)

end
